theory Spec2Isabelle
  imports Complex_Main "HOL-Library.Multiset"
begin

text \<open>
  A model of the test runner of BokehJS (the devtools script that drives a browser
  over the remote debugging protocol) and of the document loader its regression
  tests exercise, with the properties the specification states of them.  The
  definitions follow the TypeScript source function by function; what the browser,
  the page and the file system answer is a parameter of the model.
\<close>

section \<open>JavaScript numbers\<close>

text \<open>
  The seed of the shuffle is a JavaScript number, a double.  A number is not a
  number, an infinity (\<open>Infinity True\<close> is the positive one), or finite: a finite
  double is the rational it denotes.  The two zeros are one value here: the
  operations below are those the generator and the shuffle apply, and none of them
  tells \<open>-0\<close> from \<open>0\<close>.
\<close>

datatype number = NaN | Infinity bool | Finite rat

text \<open>The number of binary digits of a positive integer.\<close>

function bits :: "int \<Rightarrow> nat" where
  "bits n = (if n \<le> 0 then 0 else Suc (bits (n div 2)))"
  by pat_completeness auto
termination
  by (relation "measure nat") auto

declare bits.simps [simp del]

text \<open>The binary exponent of a rational other than zero: \<open>2^e \<le> |x| < 2^(e + 1)\<close>.\<close>

definition expo :: "rat \<Rightarrow> int" where
  "expo x =
     (if 1 \<le> \<bar>x\<bar> then int (bits \<lfloor>\<bar>x\<bar>\<rfloor>) - 1
      else - int (bits (\<lceil>1 / \<bar>x\<bar>\<rceil> - 1)))"

text \<open>The nearest integer, the even one of two that are equally near.\<close>

definition round_even :: "rat \<Rightarrow> int" where
  "round_even q =
     (let f = \<lfloor>q\<rfloor>; d = q - of_int f
      in if d < 1 / 2 then f else if 1 / 2 < d then f + 1 else if even f then f else f + 1)"

text \<open>
  Rounding to the nearest double, ties to even (the rounding of every arithmetic
  operation in IEEE 754 binary64): the result is a multiple of the unit in the last
  place (\<open>unit_of\<close>), \<open>2^(e - 52)\<close> for the exponent \<open>e\<close> of the argument, and
  \<open>2^-1074\<close> in the subnormal range.  A result of magnitude \<open>2^1024\<close> or more overflows to an
  infinity.
\<close>

definition unit_of :: "rat \<Rightarrow> rat" where
  "unit_of x = 2 powi (max (expo x) (- 1022) - 52)"

definition rnd :: "rat \<Rightarrow> rat" where
  "rnd x = (if x = 0 then 0 else of_int (round_even (x / unit_of x)) * unit_of x)"

definition rounded :: "rat \<Rightarrow> number" where
  "rounded x = (let r = rnd x in if 2 ^ 1024 \<le> \<bar>r\<bar> then Infinity (0 < r) else Finite r)"

text \<open>
  The operations \<open>x % c\<close>, \<open>x <= c\<close>, \<open>x + c\<close>, \<open>x - c\<close>, \<open>x * c\<close>, \<open>x / c\<close> with a
  number \<open>x\<close> and a finite constant \<open>c\<close> (a zero constant is \<open>+0\<close>), and
  \<open>Math.floor\<close>.  The remainder is exact and has the sign of the dividend; the
  floor is exact; the other results are rounded.
\<close>

definition num_rem :: "number \<Rightarrow> rat \<Rightarrow> number" where
  "num_rem x c =
     (case x of
        NaN \<Rightarrow> NaN
      | Infinity b \<Rightarrow> NaN
      | Finite a \<Rightarrow>
          if c = 0 then NaN
          else Finite (sgn a * (\<bar>a\<bar> - \<bar>c\<bar> * of_int \<lfloor>\<bar>a\<bar> / \<bar>c\<bar>\<rfloor>)))"

definition num_le :: "number \<Rightarrow> rat \<Rightarrow> bool" where
  "num_le x c = (case x of NaN \<Rightarrow> False | Infinity b \<Rightarrow> \<not> b | Finite a \<Rightarrow> a \<le> c)"

definition num_add :: "number \<Rightarrow> rat \<Rightarrow> number" where
  "num_add x c =
     (case x of NaN \<Rightarrow> NaN | Infinity b \<Rightarrow> Infinity b | Finite a \<Rightarrow> rounded (a + c))"

definition num_sub :: "number \<Rightarrow> rat \<Rightarrow> number" where
  "num_sub x c =
     (case x of NaN \<Rightarrow> NaN | Infinity b \<Rightarrow> Infinity b | Finite a \<Rightarrow> rounded (a - c))"

definition num_mul :: "number \<Rightarrow> rat \<Rightarrow> number" where
  "num_mul x c =
     (case x of
        NaN \<Rightarrow> NaN
      | Infinity b \<Rightarrow> if c = 0 then NaN else Infinity (b = (0 < c))
      | Finite a \<Rightarrow> rounded (a * c))"

definition num_div :: "number \<Rightarrow> rat \<Rightarrow> number" where
  "num_div x c =
     (case x of
        NaN \<Rightarrow> NaN
      | Infinity b \<Rightarrow> Infinity (b = (0 \<le> c))
      | Finite a \<Rightarrow>
          if c = 0 then (if a = 0 then NaN else Infinity (0 < a))
          else rounded (a / c))"

definition num_floor :: "number \<Rightarrow> number" where
  "num_floor x =
     (case x of NaN \<Rightarrow> NaN | Infinity b \<Rightarrow> Infinity b | Finite a \<Rightarrow> Finite (of_int \<lfloor>a\<rfloor>))"

section \<open>The seeded generator and the shuffle\<close>

text \<open>
  The test runner orders its tests with a linear congruential generator
  (class \<open>Random\<close>) and a Fisher-Yates loop (\<open>shuffle\<close>), in double arithmetic.
\<close>

definition MAX_INT32 :: rat where
  "MAX_INT32 = 2147483647"

record Random =
  seed :: number

definition Random_constructor :: "number \<Rightarrow> Random" where
  "Random_constructor s =
     (let s1 = num_rem s MAX_INT32
      in \<lparr>seed = (if num_le s1 0 then num_add s1 (MAX_INT32 - 1) else s1)\<rparr>)"

text \<open>\<open>integer()\<close> updates the state and returns it.\<close>

definition Random_integer :: "Random \<Rightarrow> number \<times> Random" where
  "Random_integer r =
     (let s = num_rem (num_mul (seed r) 48271) MAX_INT32 in (s, r\<lparr>seed := s\<rparr>))"

definition Random_float :: "Random \<Rightarrow> number \<times> Random" where
  "Random_float r =
     (case Random_integer r of
        (n, r') \<Rightarrow> (num_div (num_sub n 1) (MAX_INT32 - 1), r'))"

text \<open>
  A JavaScript array: the elements at the indices \<open>0 ..< length\<close> (\<open>None\<close> is
  \<open>undefined\<close>), and the properties stored under other keys.  A key is an array
  index when it is an integer from \<open>0\<close> to \<open>2^32 - 2\<close>; every other number (a
  negative one, a fraction, \<open>NaN\<close>) names an ordinary property.  A read out of
  range gives \<open>undefined\<close>; a write at an index past the end extends the array with
  holes.
\<close>

record 'a js_array =
  items :: "'a option list"
  props :: "number \<Rightarrow> 'a option"

definition array_index :: "number \<Rightarrow> nat option" where
  "array_index k =
     (case k of
        NaN \<Rightarrow> None
      | Infinity b \<Rightarrow> None
      | Finite q \<Rightarrow>
          if q = of_int \<lfloor>q\<rfloor> \<and> 0 \<le> q \<and> q < 4294967295 then Some (nat \<lfloor>q\<rfloor>) else None)"

definition js_get :: "'a js_array \<Rightarrow> number \<Rightarrow> 'a option" where
  "js_get a k =
     (case array_index k of
        Some n \<Rightarrow> (if n < length (items a) then items a ! n else None)
      | None \<Rightarrow> props a k)"

definition js_set :: "'a js_array \<Rightarrow> number \<Rightarrow> 'a option \<Rightarrow> 'a js_array" where
  "js_set a k v =
     (case array_index k of
        Some n \<Rightarrow>
          (if n < length (items a) then a\<lparr>items := (items a)[n := v]\<rparr>
           else a\<lparr>items := items a @ replicate (n - length (items a)) None @ [v]\<rparr>)
      | None \<Rightarrow> a\<lparr>props := (props a)(k := v)\<rparr>)"

definition of_list :: "'a list \<Rightarrow> 'a js_array" where
  "of_list xs = \<lparr>items = map Some xs, props = (\<lambda>k. None)\<rparr>"

text \<open>One pass of the body of the loop of \<open>shuffle\<close>, at index \<open>i\<close>.\<close>

definition shuffle_step :: "nat \<Rightarrow> 'a js_array \<Rightarrow> Random \<Rightarrow> 'a js_array \<times> Random" where
  "shuffle_step i a r =
     (case Random_float r of
        (f, r') \<Rightarrow>
          (let j = num_floor (num_mul f (of_nat i + 1));
               temp = js_get a (Finite (of_nat i));
               a1 = js_set a (Finite (of_nat i)) (js_get a j);
               a2 = js_set a1 j temp
           in (a2, r')))"

text \<open>The loop \<open>for (let i = array.length - 1; i > 0; i--)\<close>, counting down.\<close>

fun shuffle_loop :: "nat \<Rightarrow> 'a js_array \<Rightarrow> Random \<Rightarrow> 'a js_array \<times> Random" where
  "shuffle_loop 0 a r = (a, r)"
| "shuffle_loop (Suc n) a r =
     (case shuffle_step (Suc n) a r of (a', r') \<Rightarrow> shuffle_loop n a' r')"

definition shuffle :: "'a js_array \<Rightarrow> Random \<Rightarrow> 'a js_array \<times> Random" where
  "shuffle a r = shuffle_loop (length (items a) - 1) a r"

text \<open>
  The position pairs \<open>(i, j)\<close> that the loop exchanges, in the order it exchanges
  them: they are computed from the loop bound and the generator alone.
\<close>

definition exchange :: "'a js_array \<Rightarrow> nat \<times> number \<Rightarrow> 'a js_array" where
  "exchange a p =
     (case p of
        (i, j) \<Rightarrow> js_set (js_set a (Finite (of_nat i)) (js_get a j)) j (js_get a (Finite (of_nat i))))"

fun shuffle_swaps :: "nat \<Rightarrow> Random \<Rightarrow> (nat \<times> number) list" where
  "shuffle_swaps 0 r = []"
| "shuffle_swaps (Suc n) r =
     (case Random_float r of
        (f, r') \<Rightarrow> (Suc n, num_floor (num_mul f (of_nat (Suc n) + 1))) # shuffle_swaps n r')"

text \<open>The states the generator is meant to stay in: the integers from \<open>1\<close> to
  \<open>2^31 - 2\<close>.\<close>

definition in_range :: "Random \<Rightarrow> bool" where
  "in_range r =
     (case seed r of
        NaN \<Rightarrow> False
      | Infinity b \<Rightarrow> False
      | Finite q \<Rightarrow> q = of_int \<lfloor>q\<rfloor> \<and> 1 \<le> q \<and> q \<le> MAX_INT32 - 1)"

section \<open>The suite tree\<close>

text \<open>
  The page serialises its suites as nested objects (\<open>Tests.top_level\<close>).  The runner
  compares suites and tests by object identity (\<open>indexOf\<close>), so every object carries
  its identity here: \<open>sid\<close> and \<open>tid\<close>.  A deserialised tree shares no object, so
  the identities of siblings differ (\<open>distinct_ids\<close>).  The field \<open>dpr\<close> of a test
  only selects the device metrics of the emulated screen and is left out;
  \<open>threshold\<close> and \<open>retries\<close> are counts.
\<close>

record Test =
  tid :: nat
  t_description :: string
  skip :: bool
  threshold :: "nat option"
  retries :: "nat option"

datatype Suite =
  Suite (sid: nat) (s_description: string) (suites: "Suite list") (tests: "Test list")

type_synonym Buffer = "nat list"

record Status =
  success :: "bool option"
  failure :: "bool option"
  timeout :: "bool option"
  skipped :: "bool option"
  errors :: "string list"
  baseline_name :: "string option"
  baseline :: "string option"
  baseline_diff :: "string option"
  reference :: "Buffer option"
  image_buf :: "Buffer option"
  image_diff :: "Buffer option"

type_synonym TestItem = "Suite list \<times> Test \<times> Status"

text \<open>The status \<open>{errors: []}\<close> a test starts with.\<close>

definition new_status :: Status where
  "new_status =
     \<lparr>success = None, failure = None, timeout = None, skipped = None, errors = [],
      baseline_name = None, baseline = None, baseline_diff = None, reference = None,
      image_buf = None, image_diff = None\<rparr>"

fun iter :: "Suite \<Rightarrow> Suite list \<Rightarrow> TestItem list" where
  "iter (Suite i d ss ts) parents =
     concat (map (\<lambda>suite. iter suite (parents @ [suite])) ss)
     @ map (\<lambda>test. (parents, test, new_status)) ts"

definition descriptions :: "Suite list \<Rightarrow> Test \<Rightarrow> string list" where
  "descriptions ss test = map s_description ss @ [t_description test]"

fun join :: "string list \<Rightarrow> string \<Rightarrow> string" where
  "join [] sep = []"
| "join [x] sep = x"
| "join (x # y # ys) sep = x @ sep @ join (y # ys) sep"

definition description :: "Suite list \<Rightarrow> Test \<Rightarrow> string \<Rightarrow> string" where
  "description ss test sep = join (descriptions ss test) sep"

text \<open>\<open>s.replace(/[ \/\[\]]/g, "_")\<close>\<close>

definition encode :: "string \<Rightarrow> string" where
  "encode s = map (\<lambda>c. if c \<in> set '' /[]'' then CHR ''_'' else c) s"

text \<open>\<open>indexOf\<close> on the identities: the first index, or \<open>-1\<close>.\<close>

fun indexOf :: "nat list \<Rightarrow> nat \<Rightarrow> int" where
  "indexOf [] x = - 1"
| "indexOf (y # ys) x =
     (if y = x then 0 else (let k = indexOf ys x in if k < 0 then - 1 else k + 1))"

fun to_seq_loop :: "Suite \<Rightarrow> Suite list \<Rightarrow> int list \<Rightarrow> Suite \<times> int list" where
  "to_seq_loop current [] si = (current, si)"
| "to_seq_loop current (suite # rest) si =
     to_seq_loop suite rest (si @ [indexOf (map sid (suites current)) (sid suite)])"

definition to_seq :: "Suite \<Rightarrow> Suite list \<Rightarrow> Test \<Rightarrow> int list \<times> int" where
  "to_seq top_level ss test =
     (case to_seq_loop top_level ss [] of
        (current, si) \<Rightarrow> (si, indexOf (map tid (tests current)) (tid test)))"

text \<open>
  What the claim about \<open>to_seq\<close> compares it with.  \<open>locate\<close> follows a sequence
  identifier from the top-level suite: each index of \<open>si\<close> selects a sub-suite, the
  index \<open>ti\<close> a test of the suite reached; it returns the suites passed and the
  test.  \<open>positions\<close> lists the sequence identifiers of a tree in declaration
  order: the sub-suites in their order, each with its own positions, then the tests
  of the suite in their order.
\<close>

fun locate :: "Suite \<Rightarrow> int list \<Rightarrow> int \<Rightarrow> (Suite list \<times> Test) option" where
  "locate current [] ti =
     (if 0 \<le> ti \<and> nat ti < length (tests current)
      then Some ([], tests current ! nat ti) else None)"
| "locate current (k # ks) ti =
     (if 0 \<le> k \<and> nat k < length (suites current)
      then (case locate (suites current ! nat k) ks ti of
              None \<Rightarrow> None
            | Some (ps, t) \<Rightarrow> Some (suites current ! nat k # ps, t))
      else None)"

fun positions :: "Suite \<Rightarrow> (int list \<times> int) list"
  and positions_from :: "nat \<Rightarrow> Suite list \<Rightarrow> (int list \<times> int) list" where
  "positions (Suite i d ss ts) = positions_from 0 ss @ map (\<lambda>k. ([], int k)) [0..<length ts]"
| "positions_from k [] = []"
| "positions_from k (s # rest) =
     map (\<lambda>(si, ti). (int k # si, ti)) (positions s) @ positions_from (Suc k) rest"

fun distinct_ids :: "Suite \<Rightarrow> bool" where
  "distinct_ids (Suite i d ss ts) =
     (distinct (map sid ss) \<and> distinct (map tid ts) \<and> list_all distinct_ids ss)"

section \<open>The command line, the page and the file system\<close>

text \<open>
  The options the runner reads from \<open>argv\<close>.  A regular expression of \<open>--grep\<close>
  is its matching predicate on descriptions.  The seed is the number
  \<open>Number(argv.seed)\<close>, which can be any number, or \<open>Date.now()\<close> when no seed is
  given.
\<close>

record Config =
  cfg_url :: string
  cfg_randomize :: bool
  cfg_seed :: number
  cfg_k :: "string list option"
  cfg_grep :: "(string \<Rightarrow> bool) list option"
  cfg_baselines_root :: "string option"
  cfg_screenshot :: "string option"
  cfg_retry :: bool
  cfg_info :: bool

text \<open>
  The functions imported from the modules \<open>./baselines\<close> and \<open>./image\<close>, which
  are parameters of the model: \<open>create_baseline\<close> renders page states (of a type
  \<open>'s\<close>) as text, \<open>diff_image\<close> compares two bitmaps and returns nothing or the
  difference image, the number of differing pixels and the percentage (here
  already rendered by \<open>toFixed(2)\<close>).
\<close>

record DiffResult =
  d_diff :: Buffer
  d_pixels :: nat
  d_percent :: string

record 's Libs =
  create_baseline :: "'s list \<Rightarrow> string"
  diff_image :: "Buffer \<Rightarrow> Buffer \<Rightarrow> DiffResult option"

text \<open>The three results of \<open>evaluate\<close>.\<close>

datatype 'a Evaluated = Value 'a | Failure string | Timeout

type_synonym Box = "int \<times> int \<times> int \<times> int"

text \<open>The type \<open>Result\<close> of \<open>Tests.run\<close>: \<open>error\<close> is \<open>str\<close> and the optional
  \<open>stack\<close>; the field \<open>time\<close> is never read.\<close>

record 's Result =
  r_error :: "(string \<times> string option) option"
  r_state :: "'s option"
  r_bbox :: "Box option"

datatype Level = Warning | Error

record LogEntry =
  level :: Level
  text_of :: string

text \<open>
  What the page, the browser and the file system answer during one call of
  \<open>run_test\<close>: the console entries and exceptions that arrived since the last
  look, the results of \<open>Tests.run\<close>, \<open>Tests.get_state\<close> and \<open>Tests.clear\<close>, the
  stored baseline (\<open>load_baseline\<close>) and its difference (\<open>diff_baseline\<close>), the
  captured screenshot and the stored image (\<open>load_baseline_image\<close>).
\<close>

record 's Attempt =
  new_entries :: "LogEntry list"
  new_exceptions :: "string list"
  run_output :: "'s Result Evaluated"
  state_output :: "'s option Evaluated"
  existing_baseline :: "string option"
  diff_text :: string
  captured :: Buffer
  existing_image :: "Buffer option"
  clear_output :: "unit Evaluated"

text \<open>
  The whole environment of a run: the browser's version (nothing when the query
  fails), whether the connection opens, the result of the navigation, the exceptions
  thrown while the page loads, the readiness marker, the suite the page reports,
  the answers for the attempt \<open>a\<close> of the test at position \<open>k\<close> of the run order
  (\<open>attempts k a\<close>), and the files found in the baselines directory at the end.
\<close>

record 's World =
  version :: "(string \<times> string) option"
  connects :: bool
  navigate_errorText :: "string option"
  load_exceptions :: "string list"
  is_ready :: bool
  top_level_output :: "Suite Evaluated"
  attempts :: "nat \<Rightarrow> nat option \<Rightarrow> 's Attempt"
  dir_files :: "string list"

text \<open>
  What is thrown: \<open>fail(msg, code)\<close> logs the message and throws \<open>Exit(code)\<close>;
  the end of the run throws \<open>Exit(1)\<close> without a message; everything else is an
  internal error.
\<close>

datatype Exn = Fail string int | Exit int | InternalError string

text \<open>One call of \<open>run_test\<close>: the sequence identifier sent to the page, the
  attempt it was tagged with, what it returned, and whether it threw instead.\<close>

record Invocation =
  inv_seq :: "int list \<times> int"
  inv_attempt :: "nat option"
  inv_may_retry :: bool
  inv_threw :: bool

text \<open>
  The variables of \<open>run_tests\<close> that the loop over the tests updates.  The statuses
  live in the test cases of \<open>test_suite\<close>; \<open>finished\<close> holds the test cases the loop
  has taken so far, each with its status as the loop left it, and \<open>calls\<close> the calls
  of \<open>run_test\<close> so far.
\<close>

record Runner =
  entries :: "LogEntry list"
  exceptions :: "string list"
  baseline_names :: "string list"
  skipped_total :: nat
  failures :: nat
  finished :: "TestItem list"
  calls :: "Invocation list"

definition init_runner :: Runner where
  "init_runner =
     \<lparr>entries = [], exceptions = [], baseline_names = [], skipped_total = 0, failures = 0,
      finished = [], calls = []\<rparr>"

section \<open>Running one test\<close>

definition push :: "Status \<Rightarrow> string list \<Rightarrow> Status" where
  "push st es = st\<lparr>errors := errors st @ es\<rparr>"

text \<open>The console errors and the exceptions collected so far go to the status; only
  the exceptions mark it failed.\<close>

definition note_console :: "LogEntry list \<Rightarrow> string list \<Rightarrow> Status \<Rightarrow> Status" where
  "note_console es xs st =
     (let errs = filter (\<lambda>entry. level entry = Error) es;
          st1 = (if errs \<noteq> [] then push st (map text_of errs) else st)
      in if xs \<noteq> [] then (push st1 xs)\<lparr>failure := Some True\<rparr> else st1)"

text \<open>
  The comparison of the two state snapshots and of the stored baseline (the first
  anonymous block of \<open>run_test\<close>), on the retry flag and the status.
\<close>

definition check_baseline ::
  "'s Libs \<Rightarrow> Test \<Rightarrow> 's \<Rightarrow> 's \<Rightarrow> 's Attempt \<Rightarrow> bool \<times> Status \<Rightarrow> bool \<times> Status" where
  "check_baseline libs test state_early state_later e ms =
     (case ms of (may_retry, st) \<Rightarrow>
        (let baseline_early = create_baseline libs [state_early];
             baseline_later = create_baseline libs [state_later]
         in if baseline_early \<noteq> baseline_later then
              (may_retry,
               (push st [''inconsistent state'', ''early:'', baseline_early,
                         ''later:'', baseline_later])\<lparr>failure := Some True\<rparr>)
            else
              (let st1 = st\<lparr>baseline := Some baseline_later\<rparr>
               in if existing_baseline e \<noteq> Some baseline_later then
                    (let st2 = (case existing_baseline e of
                                  None \<Rightarrow> push st1 [''missing baseline'']
                                | Some x \<Rightarrow> st1);
                         may_retry2 = (case existing_baseline e of
                                  None \<Rightarrow> may_retry
                                | Some x \<Rightarrow> (if retries test \<noteq> None then True else may_retry))
                     in (may_retry2,
                         push (st2\<lparr>failure := Some True, baseline_diff := Some (diff_text e)\<rparr>)
                           [diff_text e]))
                  else (may_retry, st1))))"

text \<open>The decimal digits of a number, as template strings print it.\<close>

fun show_nat :: "nat \<Rightarrow> string" where
  "show_nat n =
     (if n < 10 then [''0123456789'' ! n]
      else show_nat (n div 10) @ [''0123456789'' ! (n mod 10)])"

definition images_differ :: "DiffResult \<Rightarrow> nat option \<Rightarrow> string" where
  "images_differ d attempt =
     ''images differ by '' @ show_nat (d_pixels d) @ ''px ('' @ d_percent d @ ''%)''
     @ (case attempt of None \<Rightarrow> [] | Some a \<Rightarrow> '' (attempt='' @ show_nat a @ '')'')"

text \<open>
  The comparison of the screenshot (the second anonymous block), for a test whose
  result has a bounding box.  The branch \<open>test\<close> of the \<open>switch\<close> on
  \<open>argv.screenshot\<close>:
\<close>

definition screenshot_test ::
  "'s Libs \<Rightarrow> Test \<Rightarrow> nat option \<Rightarrow> 's Attempt \<Rightarrow> bool \<times> Status \<Rightarrow> bool \<times> Status" where
  "screenshot_test libs test attempt e ms =
     (case ms of (may_retry, st) \<Rightarrow>
        (case existing_image e of
           None \<Rightarrow> (may_retry, push (st\<lparr>failure := Some True\<rparr>) [''missing baseline image''])
         | Some existing \<Rightarrow>
             (let st1 = st\<lparr>reference := Some existing\<rparr>
              in if existing \<noteq> captured e then
                   (case diff_image libs existing (captured e) of
                      None \<Rightarrow> (may_retry, st1)
                    | Some d \<Rightarrow>
                        (let thr = (case threshold test of None \<Rightarrow> 0 | Some t \<Rightarrow> t)
                         in if d_pixels d > thr then
                              (True,
                               push (st1\<lparr>failure := Some True, image_diff := Some (d_diff d)\<rparr>)
                                 [images_differ d attempt])
                            else (True, st1)))
                 else (may_retry, st1))))"

definition check_screenshot ::
  "Config \<Rightarrow> 's Libs \<Rightarrow> Test \<Rightarrow> nat option \<Rightarrow> Box option \<Rightarrow> 's Attempt
     \<Rightarrow> bool \<times> Status \<Rightarrow> Exn option \<times> bool \<times> Status" where
  "check_screenshot cfg libs test attempt bbox e ms =
     (case bbox of
        None \<Rightarrow> (None, ms)
      | Some b \<Rightarrow>
          (case ms of (may_retry, st) \<Rightarrow>
             (let st1 = st\<lparr>image_buf := Some (captured e)\<rparr>
              in case cfg_screenshot cfg of
                   None \<Rightarrow> (None, screenshot_test libs test attempt e (may_retry, st1))
                 | Some mode \<Rightarrow>
                     if mode = ''test'' then
                       (None, screenshot_test libs test attempt e (may_retry, st1))
                     else if mode = ''save'' then (None, may_retry, st1)
                     else if mode = ''skip'' then (None, may_retry, st1)
                     else (Some (InternalError (''invalid argument --screenshot='' @ mode)),
                           may_retry, st1))))"

text \<open>The state part of the comparison: the early state of the result, then the
  follow-up query \<open>Tests.get_state\<close>, then \<open>check_baseline\<close>.\<close>

definition check_state ::
  "'s Libs \<Rightarrow> Test \<Rightarrow> 's Result \<Rightarrow> 's Attempt \<Rightarrow> bool \<times> Status \<Rightarrow> bool \<times> Status" where
  "check_state libs test result e ms =
     (case ms of (may_retry, st) \<Rightarrow>
        (case r_state result of
           None \<Rightarrow> (may_retry, (push st [''state not present in output''])\<lparr>failure := Some True\<rparr>)
         | Some state_early \<Rightarrow>
             (case state_output e of
                Value (Some state_later) \<Rightarrow>
                  check_baseline libs test state_early state_later e (may_retry, st)
              | Value None \<Rightarrow>
                  (may_retry, (push st [''state not present in output''])\<lparr>failure := Some True\<rparr>)
              | Failure t \<Rightarrow>
                  (may_retry, (push st [''state not present in output''])\<lparr>failure := Some True\<rparr>)
              | Timeout \<Rightarrow>
                  (may_retry, (push st [''state not present in output''])\<lparr>failure := Some True\<rparr>))))"

text \<open>What \<open>run_test\<close> does with the output of \<open>Tests.run\<close>.\<close>

definition check_output ::
  "Config \<Rightarrow> 's Libs \<Rightarrow> Test \<Rightarrow> nat option \<Rightarrow> 's Attempt \<Rightarrow> bool \<times> Status
     \<Rightarrow> Exn option \<times> bool \<times> Status" where
  "check_output cfg libs test attempt e ms =
     (case ms of (may_retry, st) \<Rightarrow>
        (case run_output e of
           Failure t \<Rightarrow> (None, may_retry, (push st [t])\<lparr>failure := Some True\<rparr>)
         | Timeout \<Rightarrow> (None, may_retry, (push st [''timeout''])\<lparr>timeout := Some True\<rparr>)
         | Value result \<Rightarrow>
             (let st1 = (case r_error result of
                           None \<Rightarrow> st
                         | Some (str, stack) \<Rightarrow>
                             (push st [case stack of None \<Rightarrow> str | Some s \<Rightarrow> s])
                               \<lparr>failure := Some True\<rparr>)
              in case cfg_baselines_root cfg of
                   None \<Rightarrow> (None, may_retry, st1)
                 | Some dir \<Rightarrow>
                     check_screenshot cfg libs test attempt (r_bbox result) e
                       (check_state libs test result e (may_retry, st1)))))"

text \<open>
  \<open>run_test(attempt, status)\<close> for the test with sequence identifier \<open>seq\<close>: it
  returns what was thrown (if anything), the retry flag and the status, and records
  the call.  The \<open>finally\<close> block (\<open>Tests.clear\<close>) runs on both ways out.
\<close>

definition run_test ::
  "Config \<Rightarrow> 's Libs \<Rightarrow> Test \<Rightarrow> int list \<times> int \<Rightarrow> nat option \<Rightarrow> 's Attempt
     \<Rightarrow> Status \<Rightarrow> Runner \<Rightarrow> Exn option \<times> bool \<times> Status \<times> Runner" where
  "run_test cfg libs test seq attempt e st rn =
     (let es = entries rn @ new_entries e;
          xs = exceptions rn @ new_exceptions e;
          st1 = note_console es xs st
      in case check_output cfg libs test attempt e (False, st1) of
           (thrown, may_retry, st2) \<Rightarrow>
             (let st3 = (case clear_output e of
                           Failure t \<Rightarrow> (push st2 [t])\<lparr>failure := Some True\<rparr>
                         | Value u \<Rightarrow> st2
                         | Timeout \<Rightarrow> st2)
              in (thrown, may_retry, st3,
                  rn\<lparr>entries := es, exceptions := xs,
                     calls := calls rn @ [\<lparr>inv_seq = seq, inv_attempt = attempt,
                                           inv_may_retry = may_retry,
                                           inv_threw = (thrown \<noteq> None)\<rparr>]\<rparr>)))"

text \<open>The loop \<open>for (let i = 0; i < retries; i++)\<close>, by the number of rounds left.\<close>

fun retry_loop ::
  "Config \<Rightarrow> 's Libs \<Rightarrow> Test \<Rightarrow> int list \<times> int \<Rightarrow> (nat option \<Rightarrow> 's Attempt)
     \<Rightarrow> nat \<Rightarrow> nat \<Rightarrow> Status \<Rightarrow> Runner \<Rightarrow> Exn option \<times> Status \<times> Runner" where
  "retry_loop cfg libs test seq env 0 i st rn = (None, st, rn)"
| "retry_loop cfg libs test seq env (Suc n) i st rn =
     (case run_test cfg libs test seq (Some i) (env (Some i)) st rn of
        (Some x, do_retry, st', rn') \<Rightarrow> (Some x, st', rn')
      | (None, do_retry, st', rn') \<Rightarrow>
          if \<not> do_retry then (None, st', rn')
          else retry_loop cfg libs test seq env n (Suc i) st' rn')"

text \<open>The first call of \<open>run_test\<close> and the retries.\<close>

definition run_attempts ::
  "Config \<Rightarrow> 's Libs \<Rightarrow> Test \<Rightarrow> int list \<times> int \<Rightarrow> (nat option \<Rightarrow> 's Attempt)
     \<Rightarrow> Status \<Rightarrow> Runner \<Rightarrow> Exn option \<times> Status \<times> Runner" where
  "run_attempts cfg libs test seq env st rn =
     (case run_test cfg libs test seq None (env None) st rn of
        (Some x, do_retry, st', rn') \<Rightarrow> (Some x, st', rn')
      | (None, do_retry, st', rn') \<Rightarrow>
          if (cfg_retry cfg \<or> retries test \<noteq> None) \<and> do_retry then
            retry_loop cfg libs test seq env
              (case retries test of None \<Rightarrow> 10 | Some n \<Rightarrow> n) 0 st' rn'
          else (None, st', rn'))"

section \<open>The run\<close>

text \<open>\<open>String.prototype.includes\<close>\<close>

fun starts_with :: "string \<Rightarrow> string \<Rightarrow> bool" where
  "starts_with s [] = True"
| "starts_with [] (c # cs) = False"
| "starts_with (d # ds) (c # cs) = (d = c \<and> starts_with ds cs)"

fun js_includes :: "string \<Rightarrow> string \<Rightarrow> bool" where
  "js_includes [] kw = (kw = [])"
| "js_includes (c # cs) kw = (starts_with (c # cs) kw \<or> js_includes cs kw)"

text \<open>
  After the shuffle \<open>test_suite\<close> is read by position only, so it is the list of
  its elements from here on; an element that is \<open>undefined\<close> makes the destructuring
  \<open>[suites, test]\<close> throw a \<open>TypeError\<close>.  A filtering loop sets \<open>skip\<close> on the
  tests it does not keep.
\<close>

definition type_error :: Exn where
  "type_error = InternalError ''TypeError: undefined is not iterable''"

fun mark_skipped ::
  "(string \<Rightarrow> bool) \<Rightarrow> TestItem option list \<Rightarrow> Exn + TestItem option list" where
  "mark_skipped keep [] = Inr []"
| "mark_skipped keep (None # rest) = Inl type_error"
| "mark_skipped keep (Some (ss, test, status) # rest) =
     (case mark_skipped keep rest of
        Inl x \<Rightarrow> Inl x
      | Inr rest' \<Rightarrow>
          Inr (Some (ss, (if \<not> keep (description ss test '' '') then test\<lparr>skip := True\<rparr> else test),
                     status) # rest'))"

definition by_keywords :: "string list \<Rightarrow> string \<Rightarrow> bool" where
  "by_keywords keywords d = list_ex (\<lambda>keyword. js_includes d keyword) keywords"

definition by_regexes :: "(string \<Rightarrow> bool) list \<Rightarrow> string \<Rightarrow> bool" where
  "by_regexes regexes d = list_ex (\<lambda>regex. regex d) regexes"

definition apply_filters :: "Config \<Rightarrow> TestItem option list \<Rightarrow> Exn + TestItem option list" where
  "apply_filters cfg ts =
     (if cfg_k cfg \<noteq> None \<or> cfg_grep cfg \<noteq> None then
        (case (case cfg_k cfg of
                 None \<Rightarrow> Inr ts
               | Some keywords \<Rightarrow> mark_skipped (by_keywords keywords) ts) of
           Inl x \<Rightarrow> Inl x
         | Inr ts1 \<Rightarrow>
             (case cfg_grep cfg of
                None \<Rightarrow> Inr ts1
              | Some regexes \<Rightarrow> mark_skipped (by_regexes regexes) ts1))
      else Inr ts)"

text \<open>\<open>test_suite.some(([, test]) => !test.skip)\<close>, which stops at the first test
  that is not skipped.\<close>

fun some_not_skipped :: "TestItem option list \<Rightarrow> Exn + bool" where
  "some_not_skipped [] = Inr False"
| "some_not_skipped (None # rest) = Inl type_error"
| "some_not_skipped (Some (ss, test, status) # rest) =
     (if \<not> skip test then Inr True else some_not_skipped rest)"

text \<open>
  The body of the loop over \<open>test_suite\<close>, for one test case: the name check, then
  the attempts unless the test is skipped, then the counters.  When an attempt
  throws, the counters are not reached.
\<close>

definition tally :: "Status \<Rightarrow> Runner \<Rightarrow> Runner" where
  "tally st rn =
     (let rn1 = (if (case skipped st of None \<Rightarrow> False | Some b \<Rightarrow> b)
                 then rn\<lparr>skipped_total := skipped_total rn + 1\<rparr> else rn)
      in if (case failure st of None \<Rightarrow> False | Some b \<Rightarrow> b)
            \<or> (case timeout st of None \<Rightarrow> False | Some b \<Rightarrow> b)
         then rn1\<lparr>failures := failures rn1 + 1\<rparr> else rn1)"

definition check_name :: "string \<Rightarrow> Status \<Rightarrow> Runner \<Rightarrow> Status \<times> Runner" where
  "check_name name st rn =
     (let st0 = st\<lparr>baseline_name := Some name\<rparr>
      in if name \<in> set (baseline_names rn) then
           ((push st0 [''duplicated description''])\<lparr>failure := Some True\<rparr>, rn)
         else (st0, rn\<lparr>baseline_names := baseline_names rn @ [name]\<rparr>))"

definition run_test_case ::
  "Config \<Rightarrow> 's Libs \<Rightarrow> Suite \<Rightarrow> (nat option \<Rightarrow> 's Attempt) \<Rightarrow> TestItem \<Rightarrow> Runner
     \<Rightarrow> Exn option \<times> Runner" where
  "run_test_case cfg libs top_level env test_case rn =
     (case test_case of (ss, test, status) \<Rightarrow>
        (case check_name (encode (description ss test ''__'')) status
                (rn\<lparr>entries := [], exceptions := []\<rparr>) of
           (st1, rn1) \<Rightarrow>
             if skip test then
               (let st2 = st1\<lparr>skipped := Some True\<rparr>
                in (None, (tally st2 rn1)\<lparr>finished := finished rn1 @ [(ss, test, st2)]\<rparr>))
             else
               (case run_attempts cfg libs test (to_seq top_level ss test) env st1 rn1 of
                  (Some x, st2, rn2) \<Rightarrow>
                    (Some x, rn2\<lparr>finished := finished rn2 @ [(ss, test, st2)]\<rparr>)
                | (None, st2, rn2) \<Rightarrow>
                    (None, (tally st2 rn2)\<lparr>finished := finished rn2 @ [(ss, test, st2)]\<rparr>))))"

fun run_loop ::
  "Config \<Rightarrow> 's Libs \<Rightarrow> Suite \<Rightarrow> (nat \<Rightarrow> nat option \<Rightarrow> 's Attempt) \<Rightarrow> nat
     \<Rightarrow> TestItem option list \<Rightarrow> Runner \<Rightarrow> Exn option \<times> Runner" where
  "run_loop cfg libs top_level env k [] rn = (None, rn)"
| "run_loop cfg libs top_level env k (None # rest) rn = (Some type_error, rn)"
| "run_loop cfg libs top_level env k (Some test_case # rest) rn =
     (case run_test_case cfg libs top_level (env k) test_case rn of
        (Some x, rn') \<Rightarrow> (Some x, rn')
      | (None, rn') \<Rightarrow> run_loop cfg libs top_level env (Suc k) rest rn')"

text \<open>
  After the loop: with a baselines directory, the files of the directory that no
  test of this run named are outdated and fail the run; then any failure exits
  with code 1.
\<close>

definition outdated :: "string list \<Rightarrow> string list \<Rightarrow> string list" where
  "outdated files names =
     filter (\<lambda>f. f \<noteq> ''report.json'' \<and> f \<noteq> ''report.out''
               \<and> f \<notin> set (concat (map (\<lambda>n. [n @ ''.blf'', n @ ''.png'']) names))) files"

definition finalize :: "Config \<Rightarrow> 's World \<Rightarrow> Runner \<Rightarrow> Exn option" where
  "finalize cfg w rn =
     (if cfg_baselines_root cfg \<noteq> None \<and> outdated (dir_files w) (baseline_names rn) \<noteq> [] then
        Some (Fail (''there are outdated baselines:'' @ [CHR 0x0A]
                    @ join (outdated (dir_files w) (baseline_names rn)) [CHR 0x0A]) 1)
      else if failures rn \<noteq> 0 then Some (Exit 1)
      else None)"

text \<open>The array \<open>test_suite\<close> as the filters find it: the flattened suite, shuffled
  when \<open>--randomize\<close> is given.\<close>

definition test_suite :: "Config \<Rightarrow> Suite \<Rightarrow> TestItem option list" where
  "test_suite cfg top_level =
     (if cfg_randomize cfg
      then items (fst (shuffle (of_list (iter top_level [])) (Random_constructor (cfg_seed cfg))))
      else map Some (iter top_level []))"

text \<open>From the discovered suite to the end of \<open>run_tests\<close>.\<close>

definition run_suite :: "Config \<Rightarrow> 's Libs \<Rightarrow> 's World \<Rightarrow> Suite \<Rightarrow> Exn option \<times> Runner" where
  "run_suite cfg libs w top_level =
     (case apply_filters cfg (test_suite cfg top_level) of
        Inl x \<Rightarrow> (Some x, init_runner)
      | Inr ts \<Rightarrow>
          if length ts = 0 then (Some (Fail ''nothing to test'' 1), init_runner)
          else
            (case some_not_skipped ts of
               Inl x \<Rightarrow> (Some x, init_runner)
             | Inr False \<Rightarrow>
                 (Some (Fail ''nothing to test because all tests were skipped'' 1), init_runner)
             | Inr True \<Rightarrow>
                 (case run_loop cfg libs top_level (attempts w) 0 ts init_runner of
                    (Some x, rn) \<Rightarrow> (Some x, rn)
                  | (None, rn) \<Rightarrow> (finalize cfg w rn, rn))))"

text \<open>
  \<open>run_tests\<close>: the connection, the navigation, the readiness marker and the
  discovery, then the suite.  Whatever is thrown sets \<open>failure\<close>; the function
  returns \<open>!failure\<close>, here with what was thrown and the variables of the loop.
\<close>

record RunResult =
  ok :: bool
  raised :: "Exn option"
  runner :: Runner

definition run_tests_body :: "Config \<Rightarrow> 's Libs \<Rightarrow> 's World \<Rightarrow> Exn option \<times> Runner" where
  "run_tests_body cfg libs w =
     (if \<not> connects w then (Some (InternalError ''connection failed''), init_runner)
      else case navigate_errorText w of
        Some errorText \<Rightarrow> (Some (Fail errorText 1), init_runner)
      | None \<Rightarrow>
          if load_exceptions w \<noteq> [] then
            (Some (Fail (''failed to load '' @ cfg_url cfg) 1), init_runner)
          else if \<not> is_ready w then
            (Some (Fail (''failed to render '' @ cfg_url cfg) 1), init_runner)
          else
            (case top_level_output w of
               Failure t \<Rightarrow>
                 (Some (Fail (''internal error: failed to collect tests: '' @ t) 1), init_runner)
             | Timeout \<Rightarrow>
                 (Some (Fail ''internal error: failed to collect tests: timeout'' 1), init_runner)
             | Value top_level \<Rightarrow> run_suite cfg libs w top_level))"

definition run_tests :: "Config \<Rightarrow> 's Libs \<Rightarrow> 's World \<Rightarrow> RunResult" where
  "run_tests cfg libs w =
     (case run_tests_body cfg libs w of
        (x, rn) \<Rightarrow> \<lparr>ok = (x = None), raised = x, runner = rn\<rparr>)"

section \<open>The version check and the exit code\<close>

text \<open>
  \<open>version.match(/Chrome\/(?<major>\d+)\.(\d+)\.(\d+)\.(\d+)/)\<close>: the leftmost place
  where \<open>Chrome/\<close> is followed by four groups of digits separated by dots; the
  result is the first group.
\<close>

definition is_digit :: "char \<Rightarrow> bool" where
  "is_digit c = (c \<in> set ''0123456789'')"

definition digits_dot :: "string \<Rightarrow> (string \<times> string) option" where
  "digits_dot s =
     (case (takeWhile is_digit s, dropWhile is_digit s) of
        (ds, rest) \<Rightarrow>
          if ds \<noteq> [] \<and> starts_with rest ''.'' then Some (ds, drop 1 rest) else None)"

definition match_here :: "string \<Rightarrow> string option" where
  "match_here s =
     (if starts_with s ''Chrome/'' then
        (case digits_dot (drop 7 s) of
           None \<Rightarrow> None
         | Some (major, r1) \<Rightarrow>
             (case digits_dot r1 of
                None \<Rightarrow> None
              | Some (g2, r2) \<Rightarrow>
                  (case digits_dot r2 of
                     None \<Rightarrow> None
                   | Some (g3, r3) \<Rightarrow>
                       if takeWhile is_digit r3 \<noteq> [] then Some major else None)))
      else None)"

fun match_major :: "string \<Rightarrow> string option" where
  "match_major [] = match_here []"
| "match_major (c # cs) =
     (case match_here (c # cs) of Some major \<Rightarrow> Some major | None \<Rightarrow> match_major cs)"

text \<open>\<open>parseInt\<close> on a string of decimal digits.\<close>

definition parseInt :: "string \<Rightarrow> nat" where
  "parseInt s = foldl (\<lambda>n c. 10 * n + (of_char c - 48)) 0 s"

definition chromium_min_version :: nat where
  "chromium_min_version = 107"

definition check_version :: "string \<Rightarrow> bool" where
  "check_version v =
     (let major = parseInt (case match_major v of None \<Rightarrow> ''0'' | Some m \<Rightarrow> m)
      in chromium_min_version \<le> major)"

text \<open>
  \<open>run\<close> and \<open>main\<close>: the exit code of the process, with the result of
  \<open>run_tests\<close> when it was called.  A failing version query is caught by \<open>main\<close>.
\<close>

definition run :: "Config \<Rightarrow> 's Libs \<Rightarrow> 's World \<Rightarrow> string \<Rightarrow> nat \<times> RunResult option" where
  "run cfg libs w browser =
     (let ok0 = check_version browser;
          res = (if \<not> cfg_info cfg then Some (run_tests cfg libs w) else None);
          ok1 = (case res of None \<Rightarrow> True | Some r \<Rightarrow> ok r)
      in (if ok0 \<and> ok1 then 0 else 1, res))"

definition main :: "Config \<Rightarrow> 's Libs \<Rightarrow> 's World \<Rightarrow> nat \<times> RunResult option" where
  "main cfg libs w =
     (case version w of
        None \<Rightarrow> (1, None)
      | Some (browser, protocol) \<Rightarrow> run cfg libs w browser)"

section \<open>The document\<close>

text \<open>
  The document and its loader are not among the sources at hand; only a regression
  test that loads a snapshot and displays it is.  The definitions of this section
  are therefore written from the specification of the document: a document owns
  models with attributes and an ordered event log; a write that changes a value
  appends one change event unless events are suppressed; loading a snapshot
  populates the models with events suppressed; the first full render pass applies
  the derived changes (such as the computed ranges) and then sends the
  document-ready signal, once.
\<close>

datatype DocumentEvent = ModelChangedEvent nat string string | MessageSentEvent string

record Model =
  m_id :: nat
  m_type :: string
  m_attributes :: "(string \<times> string) list"

record Document =
  models :: "Model list"
  event_log :: "DocumentEvent list"
  suppressed :: bool
  ready_sent :: bool

definition empty_document :: Document where
  "empty_document = \<lparr>models = [], event_log = [], suppressed = False, ready_sent = False\<rparr>"

text \<open>Modelled from the spec: the attribute store of a model, which the sources at
  hand do not contain.\<close>

definition write_attr :: "string \<Rightarrow> string \<Rightarrow> Model \<Rightarrow> Model" where
  "write_attr a v m =
     m\<lparr>m_attributes := (a, v) # filter (\<lambda>(b, u). b \<noteq> a) (m_attributes m)\<rparr>"

definition read_attr :: "Document \<Rightarrow> nat \<Rightarrow> string \<Rightarrow> string option" where
  "read_attr doc i a =
     (case filter (\<lambda>m. m_id m = i) (models doc) of
        [] \<Rightarrow> None
      | m # ms \<Rightarrow> map_of (m_attributes m) a)"

text \<open>Modelled from the spec: \<open>set(attr, value)\<close> of the change notification
  contract, missing from the sources: the new value is stored, and a change event is
  appended unless events are suppressed or the value is the one already held.\<close>

definition set_attr :: "nat \<Rightarrow> string \<Rightarrow> string \<Rightarrow> Document \<Rightarrow> Document" where
  "set_attr i a v doc =
     (let doc1 = doc\<lparr>models := map (\<lambda>m. if m_id m = i then write_attr a v m else m) (models doc)\<rparr>
      in if suppressed doc \<or> read_attr doc i a = Some v then doc1
         else doc1\<lparr>event_log := event_log doc @ [ModelChangedEvent i a v]\<rparr>)"

text \<open>Modelled from the spec: \<open>from_snapshot(json)\<close> (\<open>Document.from_json\<close> in the
  regression test), missing from the sources: every model of the snapshot is added
  and its attributes are written, with events suppressed during the load.\<close>

definition add_model :: "Model \<Rightarrow> Document \<Rightarrow> Document" where
  "add_model m doc =
     fold (\<lambda>(a, v). set_attr (m_id m) a v) (m_attributes m)
       (doc\<lparr>models := models doc @ [m\<lparr>m_attributes := []\<rparr>]\<rparr>)"

definition from_snapshot :: "Model list \<Rightarrow> Document" where
  "from_snapshot json =
     (fold add_model json (empty_document\<lparr>suppressed := True\<rparr>))\<lparr>suppressed := False\<rparr>"

text \<open>Modelled from the spec: a full render pass (\<open>display\<close> in the regression
  test), missing from the sources: the derived changes are written as ordinary
  attribute changes, then the document-ready signal is sent unless it was sent
  before.\<close>

definition document_ready :: DocumentEvent where
  "document_ready = MessageSentEvent ''document_ready''"

definition render_pass :: "(nat \<times> string \<times> string) list \<Rightarrow> Document \<Rightarrow> Document" where
  "render_pass derived doc =
     (let doc1 = fold (\<lambda>(i, a, v). set_attr i a v) derived doc
      in if ready_sent doc1 then doc1
         else doc1\<lparr>event_log := event_log doc1 @ [document_ready], ready_sent := True\<rparr>)"

section \<open>Notions for the statements and the proofs\<close>

subsection \<open>The flattened suite\<close>

text \<open>A test case moved under a path of suites; the sequence identifier that \<open>to_seq\<close>
  computes when its loop starts from a given suite and prefix; the pair (suite
  path, test) of a test case.\<close>

definition under :: "Suite list \<Rightarrow> TestItem \<Rightarrow> TestItem" where
  "under ps item = (case item of (ss, test, st) \<Rightarrow> (ps @ ss, test, st))"

definition seq_of :: "Suite \<Rightarrow> int list \<Rightarrow> TestItem \<Rightarrow> int list \<times> int" where
  "seq_of s acc item =
     (case item of (ss, test, st) \<Rightarrow>
        (case to_seq_loop s ss acc of
           (current, si) \<Rightarrow> (si, indexOf (map tid (tests current)) (tid test))))"

definition pair_of :: "TestItem \<Rightarrow> (Suite list \<times> Test) option" where
  "pair_of item = (case item of (ss, test, st) \<Rightarrow> Some (ss, test))"

subsection \<open>Statuses and the books of the loop\<close>

text \<open>\<open>extends st st'\<close>: the status \<open>st'\<close> has the errors of \<open>st\<close> and possibly more, is
  failed if \<open>st\<close> is, and has the same baseline name.  \<open>name_of\<close> is the encoded
  baseline name of a test case, \<open>flagged\<close> a status that records a duplicated
  description.  \<open>same_books\<close>: two states of the loop that differ in the console
  buffers and the recorded calls only.  \<open>books_ok\<close>: every test case taken so far
  has its name among \<open>baseline_names\<close>, and is flagged when an earlier one has the
  same name.  \<open>tallied\<close>: a failed status among them has been counted.\<close>

definition extends :: "Status \<Rightarrow> Status \<Rightarrow> bool" where
  "extends st st' =
     ((\<exists>es. errors st' = errors st @ es)
      \<and> (failure st = Some True \<longrightarrow> failure st' = Some True)
      \<and> baseline_name st' = baseline_name st)"

definition name_of :: "TestItem \<Rightarrow> string" where
  "name_of item = (case item of (ss, test, st) \<Rightarrow> encode (description ss test ''__''))"

definition status_of :: "TestItem \<Rightarrow> Status" where
  "status_of item = (case item of (ss, test, st) \<Rightarrow> st)"

definition flagged :: "Status \<Rightarrow> bool" where
  "flagged st = (''duplicated description'' \<in> set (errors st) \<and> failure st = Some True)"

definition same_books :: "Runner \<Rightarrow> Runner \<Rightarrow> bool" where
  "same_books rn rn' =
     (baseline_names rn' = baseline_names rn \<and> finished rn' = finished rn
      \<and> failures rn' = failures rn \<and> skipped_total rn' = skipped_total rn)"

definition books_ok :: "Runner \<Rightarrow> bool" where
  "books_ok rn =
     ((\<forall>item \<in> set (finished rn). name_of item \<in> set (baseline_names rn))
      \<and> (\<forall>j < length (finished rn). \<forall>i < j.
            name_of (finished rn ! i) = name_of (finished rn ! j)
            \<longrightarrow> flagged (status_of (finished rn ! j))))"

definition tallied :: "Runner \<Rightarrow> bool" where
  "tallied rn =
     ((\<exists>item \<in> set (finished rn). failure (status_of item) = Some True) \<longrightarrow> failures rn \<noteq> 0)"

definition fails_if_failed :: "Exn option \<times> Runner \<Rightarrow> bool" where
  "fails_if_failed r =
     (case r of (x, rn) \<Rightarrow>
        books_ok rn
        \<and> ((\<exists>item \<in> set (finished rn). failure (status_of item) = Some True) \<longrightarrow> x \<noteq> None))"

subsection \<open>Retries\<close>

text \<open>The calls of \<open>run_test\<close> added between two states of the loop; the retry
  budget of a test; and the shape of the calls the retry loop makes in \<open>n\<close> rounds
  from ordinal \<open>i\<close>: at most \<open>n\<close>, tagged \<open>i, i + 1, ...\<close>, all but the last
  returning the retry flag, and ending early only on a call that returns no retry
  flag or throws.\<close>

definition new_calls :: "Runner \<Rightarrow> Runner \<Rightarrow> Invocation list" where
  "new_calls rn rn' = drop (length (calls rn)) (calls rn')"

definition budget :: "Test \<Rightarrow> nat" where
  "budget test = (case retries test of None \<Rightarrow> 10 | Some n \<Rightarrow> n)"

definition retry_calls :: "nat \<Rightarrow> nat \<Rightarrow> Invocation list \<Rightarrow> bool" where
  "retry_calls n i invs =
     (length invs \<le> n
      \<and> map inv_attempt invs = map Some [i..<i + length invs]
      \<and> (\<forall>inv \<in> set (butlast invs). inv_may_retry inv \<and> \<not> inv_threw inv)
      \<and> (length invs < n \<longrightarrow> invs \<noteq> [] \<and> (\<not> inv_may_retry (last invs) \<or> inv_threw (last invs))))"

subsection \<open>Filters\<close>


definition marked :: "(string \<Rightarrow> bool) \<Rightarrow> TestItem \<Rightarrow> TestItem" where
  "marked keep item =
     (case item of (ss, test, st) \<Rightarrow>
        (ss, test\<lparr>skip := skip test \<or> \<not> keep (description ss test '' '')\<rparr>, st))"

definition filtered :: "Config \<Rightarrow> TestItem \<Rightarrow> TestItem" where
  "filtered cfg item =
     (case cfg_grep cfg of None \<Rightarrow> id | Some regexes \<Rightarrow> marked (by_regexes regexes))
       ((case cfg_k cfg of None \<Rightarrow> id | Some keywords \<Rightarrow> marked (by_keywords keywords)) item)"

definition is_skipped :: "TestItem \<Rightarrow> bool" where
  "is_skipped item = (case item of (ss, test, st) \<Rightarrow> skip test)"


subsection \<open>Example inputs\<close>

text \<open>Concrete suites, options, library functions and answers of the page, for the
  instances at which the theorems below are applied.\<close>

definition example_suite :: Suite where
  "example_suite =
     Suite 0 ''top''
       [Suite 1 ''glyphs'' []
          [\<lparr>tid = 2, t_description = ''draws'', skip = False, threshold = None, retries = None\<rparr>,
           \<lparr>tid = 3, t_description = ''draws'', skip = False, threshold = None, retries = None\<rparr>]]
       [\<lparr>tid = 4, t_description = ''loads'', skip = False, threshold = None, retries = None\<rparr>]"

definition example_test :: Test where
  "example_test =
     \<lparr>tid = 2, t_description = ''draws'', skip = False, threshold = Some 10, retries = None\<rparr>"

definition flaky_test :: Test where
  "flaky_test = example_test\<lparr>retries := Some 2\<rparr>"

definition duplicate_suite :: Suite where
  "duplicate_suite =
     Suite 0 ''top'' []
       [\<lparr>tid = 1, t_description = ''a b'', skip = False, threshold = None, retries = None\<rparr>,
        \<lparr>tid = 2, t_description = ''a_b'', skip = True, threshold = None, retries = None\<rparr>]"

definition skipped_twins :: Suite where
  "skipped_twins =
     Suite 0 ''top'' []
       [\<lparr>tid = 1, t_description = ''a b'', skip = True, threshold = None, retries = None\<rparr>,
        \<lparr>tid = 2, t_description = ''a_b'', skip = True, threshold = None, retries = None\<rparr>]"

definition passing_suite :: Suite where
  "passing_suite =
     Suite 0 ''top'' []
       [\<lparr>tid = 1, t_description = ''a b'', skip = False, threshold = None, retries = None\<rparr>]"

definition example_config :: Config where
  "example_config =
     \<lparr>cfg_url = ''http://localhost:5777/integration'', cfg_randomize = False, cfg_seed = Finite 1,
      cfg_k = None, cfg_grep = None, cfg_baselines_root = Some ''baselines'',
      cfg_screenshot = None, cfg_retry = False, cfg_info = False\<rparr>"

definition plain_config :: Config where
  "plain_config = example_config\<lparr>cfg_baselines_root := None\<rparr>"

definition retrying_config :: Config where
  "retrying_config = example_config\<lparr>cfg_retry := True\<rparr>"


definition example_libs :: "string Libs" where
  "example_libs =
     \<lparr>create_baseline = concat,
      diff_image = (\<lambda>a b. Some \<lparr>d_diff = [], d_pixels = 5, d_percent = ''0.10''\<rparr>)\<rparr>"

definition example_attempt :: "string Attempt" where
  "example_attempt =
     \<lparr>new_entries = [], new_exceptions = [],
      run_output = Value \<lparr>r_error = None, r_state = Some ''early'', r_bbox = Some (0, 0, 1, 1)\<rparr>,
      state_output = Value (Some ''later''),
      existing_baseline = Some ''later'', diff_text = '''',
      captured = [1], existing_image = Some [2], clear_output = Value ()\<rparr>"

definition tolerated_attempt :: "string Attempt" where
  "tolerated_attempt =
     example_attempt\<lparr>state_output := Value (Some ''early''), existing_baseline := Some ''early''\<rparr>"

definition passing_attempt :: "string Attempt" where
  "passing_attempt =
     \<lparr>new_entries = [], new_exceptions = [],
      run_output = Value \<lparr>r_error = None, r_state = None, r_bbox = None\<rparr>,
      state_output = Value None, existing_baseline = None, diff_text = '''',
      captured = [], existing_image = None, clear_output = Value ()\<rparr>"

definition world_of :: "string \<Rightarrow> Suite \<Rightarrow> string World" where
  "world_of browser top_level =
     \<lparr>version = Some (browser, ''1.3''), connects = True, navigate_errorText = None,
      load_exceptions = [], is_ready = True, top_level_output = Value top_level,
      attempts = (\<lambda>k a. passing_attempt), dir_files = []\<rparr>"

section \<open>Properties of rounding\<close>

text \<open>The exponent brackets its argument; rounding is exact on the doubles and
  monotone on the numbers that are not negative.\<close>

lemma bits_bounds:
  "0 < n \<Longrightarrow> 2 ^ (bits n - 1) \<le> n \<and> n < 2 ^ bits n"
proof (induction n rule: bits.induct)
  case (1 n)
  show ?case
  proof (cases "n div 2 \<le> 0")
    case True
    with "1.prems" have n: "n = 1" by linarith
    show ?thesis
      by (simp add: n bits.simps[of 1] bits.simps[of 0])
  next
    case False
    then have pos: "0 < n div 2" by simp
    from "1.prems" have nz: "\<not> n \<le> 0" by simp
    from "1.IH"[OF nz pos]
    have lo: "2 ^ (bits (n div 2) - 1) \<le> n div 2" and hi: "n div 2 < 2 ^ bits (n div 2)"
      by simp_all
    have b: "bits n = Suc (bits (n div 2))"
      using nz by (subst bits.simps) simp
    have bp: "0 < bits (n div 2)"
      using pos by (subst bits.simps) simp
    then have "(2::int) ^ bits (n div 2) = 2 * 2 ^ (bits (n div 2) - 1)"
      by (cases "bits (n div 2)") simp_all
    with lo have "2 ^ bits (n div 2) \<le> 2 * (n div 2)" by simp
    also have "\<dots> \<le> n" by simp
    finally have l: "2 ^ (bits n - 1) \<le> n" by (simp add: b)
    from hi have "n div 2 + 1 \<le> 2 ^ bits (n div 2)" by simp
    then have "2 * (n div 2) + 2 \<le> 2 * 2 ^ bits (n div 2)" by simp
    moreover have "n < 2 * (n div 2) + 2" by linarith
    ultimately have "n < 2 ^ bits n" by (simp add: b)
    with l show ?thesis by simp
  qed
qed

lemma expo_bounds:
  assumes "x \<noteq> 0"
  shows "2 powi expo x \<le> \<bar>x\<bar>" and "\<bar>x\<bar> < 2 powi (expo x + 1)"
proof -
  let ?a = "\<bar>x\<bar>"
  have apos: "0 < ?a" using assms by simp
  have "2 powi expo x \<le> ?a \<and> ?a < 2 powi (expo x + 1)"
  proof (cases "1 \<le> ?a")
    case True
    let ?n = "\<lfloor>?a\<rfloor>"
    from True have n: "0 < ?n" by simp
    from bits_bounds[OF n] have lo: "2 ^ (bits ?n - 1) \<le> ?n" and hi: "?n < 2 ^ bits ?n"
      by simp_all
    have bp: "0 < bits ?n" using n by (subst bits.simps) simp
    have e: "expo x = int (bits ?n - 1)"
      using True bp by (simp add: expo_def)
    have e1: "expo x + 1 = int (bits ?n)"
      using e bp by simp
    have "rat_of_int (2 ^ (bits ?n - 1)) \<le> rat_of_int ?n"
      using lo by (simp only: of_int_le_iff)
    also have "\<dots> \<le> ?a" by simp
    finally have l: "2 powi expo x \<le> ?a"
      by (simp add: e)
    have "?n + 1 \<le> 2 ^ bits ?n" using hi by simp
    then have "rat_of_int (?n + 1) \<le> rat_of_int (2 ^ bits ?n)"
      by (simp only: of_int_le_iff)
    moreover have "?a < rat_of_int (?n + 1)" by linarith
    ultimately have "?a < 2 powi (expo x + 1)"
      by (simp add: e1)
    with l show ?thesis by simp
  next
    case False
    then have lt1: "?a < 1" by simp
    let ?m = "\<lceil>1 / ?a\<rceil> - 1"
    have "1 < 1 / ?a" using apos lt1 by (simp add: field_simps)
    then have "1 < \<lceil>1 / ?a\<rceil>" by (simp add: less_ceiling_iff)
    then have m: "0 < ?m" by simp
    from bits_bounds[OF m] have lo: "2 ^ (bits ?m - 1) \<le> ?m" and hi: "?m < 2 ^ bits ?m"
      by simp_all
    have bp: "0 < bits ?m" using m by (subst bits.simps) simp
    have e: "expo x = - int (bits ?m)"
      using False by (simp add: expo_def)
    have m1: "rat_of_int ?m < 1 / ?a" "1 / ?a \<le> rat_of_int ?m + 1"
      by linarith+
    have "?m + 1 \<le> 2 ^ bits ?m" using hi by simp
    then have "rat_of_int (?m + 1) \<le> rat_of_int (2 ^ bits ?m)"
      by (simp only: of_int_le_iff)
    then have "rat_of_int ?m + 1 \<le> 2 ^ bits ?m" by simp
    with m1(2) have "1 / ?a \<le> 2 ^ bits ?m" by linarith
    then have "1 \<le> 2 ^ bits ?m * ?a"
      using apos by (simp add: field_simps)
    then have l: "2 powi expo x \<le> ?a"
      by (simp add: e power_int_minus field_simps)
    have "rat_of_int (2 ^ (bits ?m - 1)) \<le> rat_of_int ?m"
      using lo by (simp only: of_int_le_iff)
    then have "2 ^ (bits ?m - 1) \<le> rat_of_int ?m" by simp
    with m1(1) have "2 ^ (bits ?m - 1) < 1 / ?a" by linarith
    then have "2 ^ (bits ?m - 1) * ?a < 1"
      using apos by (simp add: field_simps)
    moreover have "expo x + 1 = - int (bits ?m - 1)"
      using e bp by simp
    ultimately have "?a < 2 powi (expo x + 1)"
      by (simp add: power_int_minus field_simps)
    with l show ?thesis by simp
  qed
  then show "2 powi expo x \<le> \<bar>x\<bar>" and "\<bar>x\<bar> < 2 powi (expo x + 1)" by simp_all
qed

lemma expo_less:
  assumes "x \<noteq> 0" and "\<bar>x\<bar> < 2 powi e"
  shows "expo x < e"
proof (rule ccontr)
  assume "\<not> expo x < e"
  then have "e \<le> expo x" by simp
  then have "(2::rat) powi e \<le> 2 powi expo x"
    by (intro power_int_increasing) simp_all
  with expo_bounds(1)[OF assms(1)] assms(2) show False by simp
qed

lemma expo_ge:
  assumes "2 powi e \<le> \<bar>x\<bar>"
  shows "e \<le> expo x"
proof (rule ccontr)
  assume "\<not> e \<le> expo x"
  then have "expo x + 1 \<le> e" by simp
  then have "(2::rat) powi (expo x + 1) \<le> 2 powi e"
    by (intro power_int_increasing) simp_all
  moreover have "(0::rat) < 2 powi e" by (rule zero_less_power_int) simp
  then have "x \<noteq> 0" using assms by linarith
  ultimately show False
    using expo_bounds(2)[of x] assms by simp
qed

lemma expo_mono:
  assumes "0 < x" "x \<le> y"
  shows "expo x \<le> expo y"
proof -
  from assms have "2 powi expo x \<le> \<bar>y\<bar>"
    using expo_bounds(1)[of x] by simp
  then show ?thesis by (rule expo_ge)
qed

lemma round_even_of_int: "round_even (of_int m) = m"
  by (simp add: round_even_def)

lemma round_even_bounds: "\<lfloor>q\<rfloor> \<le> round_even q" "round_even q \<le> \<lfloor>q\<rfloor> + 1"
  by (simp_all add: round_even_def Let_def)

lemma round_even_mono:
  assumes "p \<le> q"
  shows "round_even p \<le> round_even q"
proof (cases "\<lfloor>p\<rfloor> = \<lfloor>q\<rfloor>")
  case True
  with assms have "p - of_int \<lfloor>p\<rfloor> \<le> q - of_int \<lfloor>q\<rfloor>" by simp
  then show ?thesis
    using True by (auto simp: round_even_def Let_def)
next
  case False
  with assms have "\<lfloor>p\<rfloor> < \<lfloor>q\<rfloor>"
    using floor_mono[OF assms] by simp
  with round_even_bounds(2)[of p] round_even_bounds(1)[of q] show ?thesis by simp
qed

lemma round_even_minus: "round_even (- q) = - round_even q"
proof (cases "q = of_int \<lfloor>q\<rfloor>")
  case True
  then obtain m where "q = of_int m" ..
  then show ?thesis
    using round_even_of_int[of "- m"] round_even_of_int[of m] by simp
next
  case False
  then have f: "\<lfloor>- q\<rfloor> = - \<lfloor>q\<rfloor> - 1"
    by (metis ceiling_altdef ceiling_def add_diff_cancel_right' minus_minus of_int_minus)
  have d: "0 < q - of_int \<lfloor>q\<rfloor>"
    using False of_int_floor_le[of q] by linarith
  show ?thesis
    using d by (auto simp: round_even_def Let_def f)
qed

lemma unit_of_pos: "0 < unit_of x"
  unfolding unit_of_def by (rule zero_less_power_int) simp

lemma rnd_unit: "x \<noteq> 0 \<Longrightarrow> rnd x = of_int (round_even (x / unit_of x)) * unit_of x"
  by (simp add: rnd_def)

lemma rnd_zero: "rnd 0 = 0"
  by (simp add: rnd_def)

lemma two_powi_add: "(2::rat) powi (a + b) = 2 powi a * 2 powi b"
  by (rule power_int_add) simp

lemma two_powi_diff: "(2::rat) powi (a - b) = 2 powi a / 2 powi b"
  by (rule power_int_diff) simp

lemma two_powi_nat: "0 \<le> k \<Longrightarrow> (2::rat) powi k = of_int (2 ^ nat k)"
  by (simp add: power_int_def)

lemma rnd_exact:
  assumes m: "\<bar>m\<bar> < 2 ^ 53" and e: "- 1074 \<le> e"
  shows "rnd (of_int m * 2 powi e) = of_int m * 2 powi e"
proof (cases "m = 0")
  case True
  then show ?thesis by (simp add: rnd_zero)
next
  case False
  let ?x = "rat_of_int m * 2 powi e"
  have pe: "(0::rat) < 2 powi e" by (rule zero_less_power_int) simp
  have x0: "?x \<noteq> 0" using False pe by simp
  have "rat_of_int \<bar>m\<bar> < rat_of_int (2 ^ 53)"
    using m by (simp only: of_int_less_iff)
  then have "\<bar>rat_of_int m\<bar> < 2 powi 53" by simp
  then have "\<bar>rat_of_int m\<bar> * 2 powi e < 2 powi 53 * 2 powi e"
    using pe by simp
  then have "\<bar>?x\<bar> < 2 powi (53 + e)"
    using pe by (simp add: two_powi_add abs_mult)
  then have "expo ?x < 53 + e" by (rule expo_less[OF x0])
  then have le: "max (expo ?x) (- 1022) - 52 \<le> e" using e by simp
  define d where "d = e - (max (expo ?x) (- 1022) - 52)"
  have d0: "0 \<le> d" using le by (simp add: d_def)
  have u: "unit_of ?x = 2 powi (e - d)" by (simp add: unit_of_def d_def)
  have "?x / unit_of ?x = of_int m * 2 powi d"
    by (simp add: u two_powi_diff)
  also have "\<dots> = of_int (m * 2 ^ nat d)"
    using d0 by (simp add: two_powi_nat)
  finally have q: "?x / unit_of ?x = of_int (m * 2 ^ nat d)" .
  have "rnd ?x = of_int (m * 2 ^ nat d) * unit_of ?x"
    by (simp only: rnd_unit[OF x0] q round_even_of_int)
  also have "\<dots> = ?x / unit_of ?x * unit_of ?x" by (simp only: q)
  also have "\<dots> = ?x" using unit_of_pos[of ?x] by simp
  finally show ?thesis .
qed

lemma rnd_of_int:
  assumes "\<bar>m\<bar> < 2 ^ 53"
  shows "rnd (of_int m) = of_int m"
  using rnd_exact[OF assms, of 0] by simp

lemma rnd_nonneg:
  assumes "0 \<le> x"
  shows "0 \<le> rnd x"
proof (cases "x = 0")
  case True
  then show ?thesis by (simp add: rnd_zero)
next
  case False
  have "0 \<le> x / unit_of x" using assms unit_of_pos[of x] by simp
  then have "0 \<le> \<lfloor>x / unit_of x\<rfloor>" by simp
  with round_even_bounds(1)[of "x / unit_of x"] have "0 \<le> round_even (x / unit_of x)"
    by linarith
  then show ?thesis
    using unit_of_pos[of x] by (simp add: rnd_unit[OF False])
qed

lemma rnd_upper:
  assumes "0 < x"
  shows "rnd x \<le> 2 powi (max (expo x) (- 1022) + 1)"
proof -
  let ?E = "max (expo x) (- 1022)"
  have x0: "x \<noteq> 0" using assms by simp
  have "x < 2 powi (expo x + 1)" using expo_bounds(2)[OF x0] assms by simp
  also have "\<dots> \<le> 2 powi (?E + 1)"
    by (intro power_int_increasing) simp_all
  finally have "x < 2 powi (?E + 1)" .
  then have "x / unit_of x \<le> 2 powi (?E + 1) / unit_of x"
    using unit_of_pos[of x] by (simp add: divide_le_cancel)
  also have "2 powi (?E + 1) / unit_of x = 2 powi 53"
    unfolding unit_of_def two_powi_diff[symmetric] by simp
  also have "\<dots> = rat_of_int (2 ^ 53)" by simp
  finally have "round_even (x / unit_of x) \<le> round_even (rat_of_int (2 ^ 53))"
    by (rule round_even_mono)
  then have "round_even (x / unit_of x) \<le> 2 ^ 53"
    by (simp only: round_even_of_int)
  then have "rat_of_int (round_even (x / unit_of x)) \<le> rat_of_int (2 ^ 53)"
    by (simp only: of_int_le_iff)
  then have "rnd x \<le> rat_of_int (2 ^ 53) * unit_of x"
    using unit_of_pos[of x] by (simp add: rnd_unit[OF x0])
  also have "\<dots> = 2 powi 53 * 2 powi (?E - 52)" by (simp add: unit_of_def)
  also have "\<dots> = 2 powi (?E + 1)"
    unfolding two_powi_add[symmetric] by (simp add: add.commute)
  finally show ?thesis .
qed

lemma rnd_lower:
  assumes "0 < x" and "- 1022 \<le> expo x"
  shows "2 powi expo x \<le> rnd x"
proof -
  have x0: "x \<noteq> 0" using assms by simp
  have E: "max (expo x) (- 1022) = expo x" using assms(2) by simp
  have "2 powi expo x \<le> x" using expo_bounds(1)[OF x0] assms by simp
  then have "2 powi expo x / unit_of x \<le> x / unit_of x"
    using unit_of_pos[of x] by (simp add: divide_le_cancel)
  moreover have "2 powi expo x / unit_of x = 2 powi 52"
    unfolding unit_of_def two_powi_diff[symmetric] E by simp
  moreover have "(2::rat) powi 52 = rat_of_int (2 ^ 52)" by simp
  ultimately have "rat_of_int (2 ^ 52) \<le> x / unit_of x" by simp
  then have "round_even (rat_of_int (2 ^ 52)) \<le> round_even (x / unit_of x)"
    by (rule round_even_mono)
  then have "2 ^ 52 \<le> round_even (x / unit_of x)"
    by (simp only: round_even_of_int)
  then have "rat_of_int (2 ^ 52) \<le> rat_of_int (round_even (x / unit_of x))"
    by (simp only: of_int_le_iff)
  then have "rat_of_int (2 ^ 52) * unit_of x \<le> rnd x"
    using unit_of_pos[of x] by (simp add: rnd_unit[OF x0])
  moreover have "rat_of_int (2 ^ 52) * unit_of x = 2 powi 52 * 2 powi (expo x - 52)"
    by (simp add: unit_of_def E)
  moreover have "\<dots> = 2 powi expo x"
    unfolding two_powi_add[symmetric] by simp
  ultimately show ?thesis by simp
qed

lemma rnd_mono:
  assumes "0 \<le> x" and "x \<le> y"
  shows "rnd x \<le> rnd y"
proof (cases "x = 0")
  case True
  then show ?thesis using rnd_nonneg[of y] assms by (simp add: rnd_zero)
next
  case False
  then have x: "0 < x" and y: "0 < y" using assms by simp_all
  have x0: "x \<noteq> 0" and y0: "y \<noteq> 0" using x y by simp_all
  have ee: "expo x \<le> expo y" by (rule expo_mono[OF x assms(2)])
  show ?thesis
  proof (cases "max (expo x) (- 1022) = max (expo y) (- 1022)")
    case True
    then have u: "unit_of x = unit_of y" by (simp add: unit_of_def)
    have "x / unit_of y \<le> y / unit_of y"
      using assms(2) unit_of_pos[of y] by (simp add: divide_le_cancel)
    then have "round_even (x / unit_of y) \<le> round_even (y / unit_of y)"
      by (rule round_even_mono)
    then have "rat_of_int (round_even (x / unit_of y)) \<le> rat_of_int (round_even (y / unit_of y))"
      by (simp only: of_int_le_iff)
    then show ?thesis
      using unit_of_pos[of y] by (simp add: rnd_unit[OF x0] rnd_unit[OF y0] u)
  next
    case False
    with ee have lt: "max (expo x) (- 1022) + 1 \<le> expo y" and n: "- 1022 \<le> expo y"
      by simp_all
    have "rnd x \<le> 2 powi (max (expo x) (- 1022) + 1)" by (rule rnd_upper[OF x])
    also have "\<dots> \<le> 2 powi expo y"
      using lt by (intro power_int_increasing) simp_all
    also have "\<dots> \<le> rnd y" by (rule rnd_lower[OF y n])
    finally show ?thesis .
  qed
qed

section \<open>Properties of the generator and the shuffle\<close>

lemma shuffle_loop_swaps:
  "fst (shuffle_loop n a r) = foldl exchange a (shuffle_swaps n r)"
proof (induction n arbitrary: a r)
  case 0
  show ?case by simp
next
  case (Suc n)
  obtain f r' where fr: "Random_float r = (f, r')" by (cases "Random_float r")
  show ?case
    by (simp add: fr shuffle_step_def exchange_def Let_def Suc.IH)
qed

lemma shuffle_loop_generator:
  "snd (shuffle_loop n a r) = snd (shuffle_loop n b r)"
proof (induction n arbitrary: a b r)
  case 0
  show ?case by simp
next
  case (Suc n)
  obtain f r' where fr: "Random_float r = (f, r')" by (cases "Random_float r")
  show ?case
    using Suc.IH by (simp add: fr shuffle_step_def Let_def)
qed


text \<open>
  C3. The shuffle is a function of the seed and of the length of the list only: two
  runs from the same seed (any number: an integer, a fraction, an infinity or
  \<open>NaN\<close>) over arrays of the same length, whatever they hold, exchange the same
  sequence of position pairs, the one \<open>shuffle_swaps\<close> computes from the length and
  the seed, and leave the generator in the same state.  The resulting order is that
  sequence of exchanges applied to the input.
\<close>

theorem shuffle_deterministic:
  assumes "length (items a) = length (items b)"
  shows "fst (shuffle a (Random_constructor s))
           = foldl exchange a (shuffle_swaps (length (items a) - 1) (Random_constructor s))
       \<and> fst (shuffle b (Random_constructor s))
           = foldl exchange b (shuffle_swaps (length (items a) - 1) (Random_constructor s))
       \<and> snd (shuffle a (Random_constructor s)) = snd (shuffle b (Random_constructor s))"
  using assms shuffle_loop_generator[of "length (items b) - 1" a "Random_constructor s" b]
  by (simp add: shuffle_def shuffle_loop_swaps)

theorem shuffle_deterministic_witness:
  "length (items (of_list [1::nat, 2, 3])) = length (items (of_list ''abc''))
   \<and> fst (shuffle (of_list [1::nat, 2, 3]) (Random_constructor (Finite 42)))
       = foldl exchange (of_list [1::nat, 2, 3])
           (shuffle_swaps (length (items (of_list [1::nat, 2, 3])) - 1)
              (Random_constructor (Finite 42)))
   \<and> fst (shuffle (of_list ''abc'') (Random_constructor (Finite 42)))
       = foldl exchange (of_list ''abc'')
           (shuffle_swaps (length (items (of_list [1::nat, 2, 3])) - 1)
              (Random_constructor (Finite 42)))
   \<and> snd (shuffle (of_list [1::nat, 2, 3]) (Random_constructor (Finite 42)))
       = snd (shuffle (of_list ''abc'') (Random_constructor (Finite 42)))"
proof -
  have h: "length (items (of_list [1::nat, 2, 3])) = length (items (of_list ''abc''))"
    by (simp add: of_list_def)
  show ?thesis
    using h shuffle_deterministic[OF h, of "Finite 42"] by simp
qed

lemma rounded_finite:
  assumes "\<bar>rnd x\<bar> \<le> of_int b" and "b < 2 ^ 1024"
  shows "rounded x = Finite (rnd x)"
proof -
  have "rat_of_int b < rat_of_int (2 ^ 1024)"
    using assms(2) by (simp only: of_int_less_iff)
  with assms(1) have "\<bar>rnd x\<bar> < 2 ^ 1024" by simp
  then show ?thesis by (simp add: rounded_def Let_def)
qed

lemma rounded_of_int:
  assumes "\<bar>m\<bar> < 2 ^ 53"
  shows "rounded (of_int m) = Finite (of_int m)"
proof -
  have "\<bar>rnd (rat_of_int m)\<bar> \<le> of_int \<bar>m\<bar>"
    by (simp add: rnd_of_int[OF assms])
  moreover have "(2::int) ^ 53 < 2 ^ 1024"
    by (rule power_strict_increasing) simp_all
  with assms have "\<bar>m\<bar> < 2 ^ 1024" by linarith
  ultimately show ?thesis
    using rnd_of_int[OF assms] by (simp only: rounded_finite)
qed

lemma num_rem_int:
  assumes "0 \<le> a"
  shows "num_rem (Finite (of_int a)) MAX_INT32 = Finite (of_int (a mod 2147483647))"
proof -
  have "\<lfloor>rat_of_int a / 2147483647\<rfloor> = a div 2147483647"
    using floor_divide_of_int_eq[of a 2147483647, where ?'a = rat] by simp
  moreover have "a - 2147483647 * (a div 2147483647) = a mod 2147483647"
    by (simp add: minus_mult_div_eq_mod)
  then have "rat_of_int a - 2147483647 * rat_of_int (a div 2147483647)
               = rat_of_int (a mod 2147483647)"
    by (metis of_int_diff of_int_mult of_int_numeral)
  ultimately show ?thesis
    using assms by (cases "a = 0") (simp_all add: num_rem_def MAX_INT32_def)
qed

lemma num_rem_int_neg:
  assumes "a \<le> 0"
  shows "num_rem (Finite (of_int a)) MAX_INT32 = Finite (of_int (- ((- a) mod 2147483647)))"
proof -
  have "\<lfloor>rat_of_int (- a) / 2147483647\<rfloor> = (- a) div 2147483647"
    using floor_divide_of_int_eq[of "- a" 2147483647, where ?'a = rat] by simp
  moreover have "(- a) - 2147483647 * ((- a) div 2147483647) = (- a) mod 2147483647"
    by (simp add: minus_mult_div_eq_mod)
  then have "rat_of_int (- a) - 2147483647 * rat_of_int ((- a) div 2147483647)
               = rat_of_int ((- a) mod 2147483647)"
    by (metis of_int_diff of_int_mult of_int_numeral)
  ultimately show ?thesis
    using assms by (cases "a = 0") (simp_all add: num_rem_def MAX_INT32_def)
qed

lemma in_range_int:
  "in_range r = (\<exists>z. seed r = Finite (of_int z) \<and> 1 \<le> z \<and> z \<le> 2147483646)"
proof
  assume "in_range r"
  then obtain q where q: "seed r = Finite q" "q = of_int \<lfloor>q\<rfloor>" "1 \<le> q" "q \<le> 2147483646"
    by (auto simp: in_range_def MAX_INT32_def split: number.splits)
  from q(3) have "1 \<le> \<lfloor>q\<rfloor>" by simp
  moreover from q(4) have "\<lfloor>q\<rfloor> \<le> 2147483646" by (simp add: floor_le_iff)
  ultimately show "\<exists>z. seed r = Finite (of_int z) \<and> 1 \<le> z \<and> z \<le> 2147483646"
    using q(1,2) by metis
next
  assume "\<exists>z. seed r = Finite (of_int z) \<and> 1 \<le> z \<and> z \<le> 2147483646"
  then obtain z where z: "seed r = Finite (of_int z)" "1 \<le> z" "z \<le> 2147483646" by blast
  have "rat_of_int 1 \<le> rat_of_int z" "rat_of_int z \<le> rat_of_int 2147483646"
    using z(2,3) by (simp_all only: of_int_le_iff)
  then show "in_range r"
    by (simp add: in_range_def MAX_INT32_def z(1))
qed

lemma lcg_nonzero:
  assumes "1 \<le> s" "s \<le> 2147483646"
  shows "(48271 * s) mod 2147483647 \<noteq> (0::int)"
proof
  assume "(48271 * s) mod 2147483647 = 0"
  then have d: "2147483647 dvd 48271 * s" by (simp add: dvd_eq_mod_eq_0)
  have e: "1899818559 * (48271 * s) + (- 42704 * s) * 2147483647 = s"
    by simp
  have "2147483647 dvd 1899818559 * (48271 * s) + (- 42704 * s) * 2147483647"
    by (rule dvd_add[OF dvd_mult[OF d] dvd_triv_right])
  then have "2147483647 dvd s" by (simp only: e)
  with assms show False
    by (auto dest: zdvd_imp_le)
qed

lemma Random_integer_in_range:
  assumes "in_range r"
  shows "in_range (snd (Random_integer r))"
    and "fst (Random_integer r) = seed (snd (Random_integer r))"
proof -
  from assms obtain z where z: "seed r = Finite (of_int z)" "1 \<le> z" "z \<le> 2147483646"
    unfolding in_range_int by blast
  have "\<bar>z * 48271\<bar> < 2 ^ 53" using z(2,3) by simp
  from rounded_of_int[OF this]
  have m: "num_mul (seed r) 48271 = Finite (of_int (z * 48271))"
    by (simp add: num_mul_def z(1))
  have "0 \<le> z * 48271" using z(2) by simp
  from num_rem_int[OF this]
  have s: "num_rem (num_mul (seed r) 48271) MAX_INT32
             = Finite (of_int ((48271 * z) mod 2147483647))"
    by (simp only: m mult.commute)
  have "0 \<le> (48271 * z) mod 2147483647" "(48271 * z) mod 2147483647 < 2147483647"
    by simp_all
  with lcg_nonzero[OF z(2,3)]
  have "1 \<le> (48271 * z) mod 2147483647 \<and> (48271 * z) mod 2147483647 \<le> 2147483646"
    by linarith
  then show "in_range (snd (Random_integer r))"
    unfolding in_range_int by (simp add: Random_integer_def Let_def s)
  show "fst (Random_integer r) = seed (snd (Random_integer r))"
    by (simp add: Random_integer_def Let_def)
qed

text \<open>The constructor reaches the intended range from every integer seed but those
  whose remainder is \<open>-(2^31 - 2)\<close>.\<close>

lemma Random_constructor_in_range:
  assumes "num_rem (Finite (of_int s)) MAX_INT32 \<noteq> Finite (1 - MAX_INT32)"
  shows "in_range (Random_constructor (Finite (of_int s)))"
proof (cases "0 < s mod 2147483647 \<and> 0 \<le> s")
  case True
  then have e: "num_rem (Finite (of_int s)) MAX_INT32 = Finite (of_int (s mod 2147483647))"
    by (simp add: num_rem_int)
  have "s mod 2147483647 < 2147483647" by simp
  with True have b: "1 \<le> s mod 2147483647 \<and> s mod 2147483647 \<le> 2147483646" by linarith
  have "\<not> rat_of_int (s mod 2147483647) \<le> rat_of_int 0"
    using True by (simp only: of_int_le_iff) simp
  then have "seed (Random_constructor (Finite (of_int s))) = Finite (of_int (s mod 2147483647))"
    by (simp add: Random_constructor_def Let_def e num_le_def)
  with b show ?thesis unfolding in_range_int by blast
next
  case False
  define t where "t = (if 0 \<le> s then 0 else - ((- s) mod 2147483647))"
  have e: "num_rem (Finite (of_int s)) MAX_INT32 = Finite (of_int t)"
  proof (cases "0 \<le> s")
    case True
    with False have "s mod 2147483647 = 0"
      using pos_mod_sign[of 2147483647 s] by linarith
    with True show ?thesis by (simp add: num_rem_int t_def)
  next
    case False
    then show ?thesis by (simp add: num_rem_int_neg t_def)
  qed
  have "0 \<le> (- s) mod 2147483647" "(- s) mod 2147483647 < 2147483647" by simp_all
  then have "t \<le> 0 \<and> - 2147483646 \<le> t" by (cases "0 \<le> s") (simp_all add: t_def)
  then have t: "t \<le> 0" "- 2147483646 \<le> t" by simp_all
  have "rat_of_int t \<noteq> rat_of_int (- 2147483646)"
    using assms unfolding e by (simp add: MAX_INT32_def)
  then have tn: "t \<noteq> - 2147483646" by (simp only: of_int_eq_iff) simp
  have le: "rat_of_int t \<le> 0" using t(1) by simp
  have "\<bar>t + 2147483646\<bar> < 2 ^ 53" using t by simp
  from rounded_of_int[OF this]
  have "seed (Random_constructor (Finite (of_int s))) = Finite (of_int (t + 2147483646))"
    using le
    by (simp add: Random_constructor_def Let_def e[unfolded MAX_INT32_def] num_le_def
        num_add_def MAX_INT32_def)
  moreover have "1 \<le> t + 2147483646 \<and> t + 2147483646 \<le> 2147483646"
    using t tn by linarith
  ultimately show ?thesis unfolding in_range_int by blast
qed

text \<open>From a state in the range, \<open>float()\<close> is a double between \<open>0\<close> and
  \<open>1 - 2^-31\<close>.\<close>

lemma Random_float_in_range:
  assumes "in_range r"
  shows "\<exists>q. fst (Random_float r) = Finite q \<and> 0 \<le> q \<and> q \<le> 2147483647 * 2 powi (- 31)"
    and "in_range (snd (Random_float r))"
proof -
  obtain n r' where nr: "Random_integer r = (n, r')" by (cases "Random_integer r")
  from Random_integer_in_range[OF assms] nr
  have r': "in_range r'" and n: "n = seed r'" by simp_all
  then obtain z where z: "n = Finite (of_int z)" "1 \<le> z" "z \<le> 2147483646"
    unfolding in_range_int by auto
  have "\<bar>z - 1\<bar> < 2 ^ 53" using z(2,3) by simp
  from rounded_of_int[OF this]
  have s: "num_sub n 1 = Finite (of_int (z - 1))"
    by (simp add: num_sub_def z(1))
  let ?x = "rat_of_int (z - 1) / 2147483646"
  have f: "fst (Random_float r) = rounded ?x"
    by (simp add: Random_float_def nr s num_div_def MAX_INT32_def)
  have "rat_of_int 0 \<le> rat_of_int (z - 1)" "rat_of_int (z - 1) \<le> rat_of_int 2147483645"
    using z(2,3) by (simp_all only: of_int_le_iff)
  then have x: "0 \<le> ?x" "?x \<le> 2147483645 / 2147483646" by simp_all
  have "(2::rat) powi (- 31) = 1 / 2147483648"
    by (simp add: power_int_minus field_simps)
  then have top: "(2147483645::rat) / 2147483646 \<le> rat_of_int 2147483647 * 2 powi (- 31)"
    by simp
  have "rnd ?x \<le> rnd (rat_of_int 2147483647 * 2 powi (- 31))"
    using x(1) x(2) top by (intro rnd_mono) simp_all
  also have "\<dots> = rat_of_int 2147483647 * 2 powi (- 31)"
    by (rule rnd_exact) simp_all
  finally have hi: "rnd ?x \<le> 2147483647 * 2 powi (- 31)" by simp
  have lo: "0 \<le> rnd ?x" by (rule rnd_nonneg[OF x(1)])
  have "(2147483647::rat) * 2 powi (- 31) \<le> 1"
    by (simp add: power_int_minus field_simps)
  with hi lo have "\<bar>rnd ?x\<bar> \<le> rat_of_int 1" by simp
  moreover have "(1::int) < 2 ^ 1024" by simp
  ultimately have "rounded ?x = Finite (rnd ?x)" by (rule rounded_finite)
  with f hi lo
  show "\<exists>q. fst (Random_float r) = Finite q \<and> 0 \<le> q \<and> q \<le> 2147483647 * 2 powi (- 31)"
    by simp
  show "in_range (snd (Random_float r))"
    using r' by (simp add: Random_float_def nr)
qed

text \<open>
  The rounding shows in the order of the tests.  From the seed \<open>2068681119\<close> the
  first \<open>integer()\<close> is \<open>1464193396\<close> and the exact quotient is \<open>15/22\<close>;
  \<open>float()\<close> is the double next below it, and its product with \<open>22\<close> is rounded to a
  double below \<open>15\<close>: a shuffle of 22 elements first exchanges the positions 21 and
  14.
\<close>

lemma rounded_quotient_example:
  "fst (Random_integer (Random_constructor (Finite 2068681119))) = Finite 1464193396
   \<and> (1464193396 - 1) / (MAX_INT32 - 1) = 15 / 22
   \<and> fst (Random_float (Random_constructor (Finite 2068681119)))
       = Finite (6141272219141585 / 2 ^ 53)
   \<and> (6141272219141585::rat) / 2 ^ 53 < 15 / 22"
  by code_simp

lemma rounded_product_example:
  "num_floor (num_mul (fst (Random_float (Random_constructor (Finite 2068681119)))) 22)
     = Finite 14"
  by code_simp

text \<open>The product \<open>f * (i + 1)\<close> is rounded, and still below \<open>i + 1\<close>: a double lies
  between \<open>(1 - 2^-31) * (i + 1)\<close> and \<open>i + 1\<close>, for every index of an array.\<close>

lemma index_bounds:
  assumes q: "0 \<le> q" "q \<le> 2147483647 * 2 powi (- 31)" and i: "i < 2 ^ 32"
  shows "\<exists>j. num_floor (num_mul (Finite q) (of_nat i + 1)) = Finite (of_int j)
            \<and> 0 \<le> j \<and> j \<le> int i"
proof -
  let ?k = "rat_of_int (int i + 1)"
  have k: "of_nat i + 1 = ?k" by simp
  have p31: "(2::rat) powi (- 31) = 1 / 2147483648"
    by (simp add: power_int_minus field_simps)
  have p9: "(2::rat) powi (- 9) = 1 / 512"
    by (simp add: power_int_minus field_simps)
  have kpos: "0 < ?k" by simp
  have ik: "int i + 1 \<le> 2 ^ 32" using i by simp
  have x0: "0 \<le> q * ?k" using q(1) kpos by simp
  have x1: "q * ?k \<le> 2147483647 * 2 powi (- 31) * ?k"
    using q(2) kpos by (simp only: mult_le_cancel_right_pos)
  have "\<exists>y. q * ?k \<le> y \<and> y < ?k \<and> rnd y = y"
  proof (cases "int i + 1 \<le> 2 ^ 22")
    case True
    let ?y = "rat_of_int (2147483647 * (int i + 1)) * 2 powi (- 31)"
    have "\<bar>2147483647 * (int i + 1)\<bar> < 2 ^ 53" using True by simp
    then have "rnd ?y = ?y" by (rule rnd_exact) simp
    moreover have "q * ?k \<le> ?y" using x1 by (simp add: mult.commute mult.left_commute)
    moreover have "?y < ?k" using kpos by (simp add: p31)
    ultimately show ?thesis by blast
  next
    case False
    let ?y = "rat_of_int (512 * (int i + 1) - 1) * 2 powi (- 9)"
    have "\<bar>512 * (int i + 1) - 1\<bar> < 2 ^ 53" using ik by simp
    then have "rnd ?y = ?y" by (rule rnd_exact) simp
    moreover have "rat_of_int (2 ^ 22) \<le> ?k"
      using False by (simp only: of_int_le_iff)
    then have "2147483647 * 2 powi (- 31) * ?k \<le> ?y"
      by (simp add: p31 p9 field_simps)
    with x1 have "q * ?k \<le> ?y" by (rule order_trans)
    moreover have "?y < ?k" by (simp add: p9 field_simps)
    ultimately show ?thesis by blast
  qed
  then obtain y where y: "q * ?k \<le> y" "y < ?k" "rnd y = y" by blast
  have hi: "rnd (q * ?k) < ?k"
    using rnd_mono[OF x0 y(1)] y(2,3) by simp
  have lo: "0 \<le> rnd (q * ?k)" by (rule rnd_nonneg[OF x0])
  have "\<bar>rnd (q * ?k)\<bar> \<le> rat_of_int (int i + 1)" using hi lo by simp
  moreover have "int i + 1 < 2 ^ 1024"
  proof -
    have "(2::int) ^ 32 < 2 ^ 1024" by (rule power_strict_increasing) simp_all
    with ik show ?thesis by linarith
  qed
  ultimately have f: "rounded (q * ?k) = Finite (rnd (q * ?k))" by (rule rounded_finite)
  have "0 \<le> \<lfloor>rnd (q * ?k)\<rfloor>" using lo by simp
  moreover have "\<lfloor>rnd (q * ?k)\<rfloor> < int i + 1" using hi by (simp only: floor_less_iff)
  ultimately show ?thesis
    by (simp add: num_floor_def num_mul_def k f del: of_int_add)
qed

lemma array_index_nat: "i < 4294967295 \<Longrightarrow> array_index (Finite (of_nat i)) = Some i"
proof -
  assume "i < 4294967295"
  then have "rat_of_nat i < rat_of_nat 4294967295" by (simp only: of_nat_less_iff)
  then show ?thesis by (simp add: array_index_def)
qed

lemma array_index_int:
  assumes "0 \<le> j" "j < 4294967295"
  shows "array_index (Finite (of_int j)) = Some (nat j)"
proof -
  have "rat_of_int j < rat_of_int 4294967295" using assms(2) by (simp only: of_int_less_iff)
  then show ?thesis using assms(1) by (simp add: array_index_def)
qed

lemma exchange_in_bounds:
  assumes "i < length (items a)" "length (items a) < 2 ^ 32" "0 \<le> j" "j \<le> int i"
  shows "exchange a (i, Finite (of_int j))
           = a\<lparr>items := (items a)[i := items a ! nat j, nat j := items a ! i]\<rparr>"
proof -
  have i: "i < 4294967295" using assms(1,2) by simp
  have j: "j < 4294967295" using assms(4) i by simp
  have nj: "nat j < length (items a)" using assms(1,3,4) by linarith
  show ?thesis
    using assms(1) nj
    by (simp add: exchange_def js_get_def js_set_def array_index_nat[OF i]
        array_index_int[OF assms(3) j])
qed

lemma shuffle_step_exchange:
  "shuffle_step i a r =
     (exchange a (i, num_floor (num_mul (fst (Random_float r)) (of_nat i + 1))),
      snd (Random_float r))"
  by (simp add: shuffle_step_def exchange_def Let_def split: prod.splits)

lemma shuffle_step_permutes:
  assumes "in_range r" "i < length (items a)" "length (items a) < 2 ^ 32"
  shows "mset (items (fst (shuffle_step i a r))) = mset (items a)"
    and "props (fst (shuffle_step i a r)) = props a"
    and "in_range (snd (shuffle_step i a r))"
proof -
  from Random_float_in_range(1)[OF assms(1)] obtain q
    where q: "fst (Random_float r) = Finite q" "0 \<le> q" "q \<le> 2147483647 * 2 powi (- 31)"
    by blast
  have i: "i < 2 ^ 32" using assms(2,3) by simp
  from index_bounds[OF q(2,3) i] obtain j
    where j: "num_floor (num_mul (Finite q) (of_nat i + 1)) = Finite (of_int j)"
      "0 \<le> j" "j \<le> int i"
    by blast
  have r': "in_range (snd (Random_float r))" by (rule Random_float_in_range(2)[OF assms(1)])
  have e: "fst (shuffle_step i a r)
             = a\<lparr>items := (items a)[i := items a ! nat j, nat j := items a ! i]\<rparr>"
    using exchange_in_bounds[OF assms(2,3) j(2,3)] by (simp add: shuffle_step_exchange q(1) j(1))
  have nj: "nat j < length (items a)" using j(2,3) assms(2) by linarith
  show "mset (items (fst (shuffle_step i a r))) = mset (items a)"
    unfolding e using mset_swap[OF nj assms(2)] by simp
  show "props (fst (shuffle_step i a r)) = props a"
    unfolding e by simp
  show "in_range (snd (shuffle_step i a r))"
    using r' by (simp add: shuffle_step_exchange)
qed

lemma shuffle_loop_permutes:
  assumes "in_range r" "n < length (items a) \<or> n = 0" "length (items a) < 2 ^ 32"
  shows "mset (items (fst (shuffle_loop n a r))) = mset (items a)
       \<and> props (fst (shuffle_loop n a r)) = props a
       \<and> in_range (snd (shuffle_loop n a r))"
  using assms
proof (induction n arbitrary: a r)
  case 0
  then show ?case by simp
next
  case (Suc n)
  then have lt: "Suc n < length (items a)" by simp
  obtain a' r' where st: "shuffle_step (Suc n) a r = (a', r')"
    by (cases "shuffle_step (Suc n) a r")
  from shuffle_step_permutes[OF Suc.prems(1) lt Suc.prems(3)] st
  have m: "mset (items a') = mset (items a)" and p: "props a' = props a" and r': "in_range r'"
    by simp_all
  from m have l: "length (items a') = length (items a)" by (metis size_mset)
  with lt have "n < length (items a') \<or> n = 0" by simp
  moreover have "length (items a') < 2 ^ 32" using Suc.prems(3) l by simp
  ultimately show ?case using Suc.IH[OF r'] by (simp add: st m p)
qed

text \<open>From a state in the intended range the shuffle returns a permutation of
  its input and touches no other property of the array (an array of JavaScript has
  fewer than \<open>2^32\<close> elements).\<close>

lemma shuffle_permutes:
  assumes "in_range r" "length (items a) < 2 ^ 32"
  shows "mset (items (fst (shuffle a r))) = mset (items a)"
    and "props (fst (shuffle a r)) = props a"
proof -
  have "length (items a) - 1 < length (items a) \<or> length (items a) - 1 = 0"
    by (cases "items a") simp_all
  from shuffle_loop_permutes[OF assms(1) this assms(2)]
  show "mset (items (fst (shuffle a r))) = mset (items a)" "props (fst (shuffle a r)) = props a"
    by (simp_all add: shuffle_def)
qed

lemma rnd_minus: "rnd (- x) = - rnd x"
proof -
  have "unit_of (- x) = unit_of x" by (simp add: unit_of_def expo_def)
  then show ?thesis by (simp add: rnd_def round_even_minus)
qed

lemma rounded_zero: "rounded 0 = Finite 0"
  by (simp add: rounded_def rnd_zero)

text \<open>The state the constructor reaches from the seed \<open>-(2^31 - 2)\<close>, and what the
  generator and the shuffle do from it.\<close>

lemma zero_state: "Random_constructor (Finite (- 2147483646)) = \<lparr>seed = Finite 0\<rparr>"
proof -
  have "num_rem (Finite (- 2147483646)) MAX_INT32 = Finite (- 2147483646)"
    using num_rem_int_neg[of "- 2147483646"] by simp
  then show ?thesis
    by (simp add: Random_constructor_def Let_def num_le_def num_add_def MAX_INT32_def rounded_zero)
qed

lemma zero_state_integer: "Random_integer \<lparr>seed = Finite 0\<rparr> = (Finite 0, \<lparr>seed = Finite 0\<rparr>)"
  by (simp add: Random_integer_def Let_def num_mul_def rounded_zero num_rem_def MAX_INT32_def)

lemma zero_state_float:
  "\<exists>g. Random_float \<lparr>seed = Finite 0\<rparr> = (Finite (- g), \<lparr>seed = Finite 0\<rparr>)
       \<and> 2 powi (- 31) \<le> g \<and> g \<le> 2 powi (- 30)"
proof -
  let ?x = "(1::rat) / 2147483646"
  have p31: "(2::rat) powi (- 31) = 1 / 2147483648"
    by (simp add: power_int_minus field_simps)
  have p30: "(2::rat) powi (- 30) = 1 / 1073741824"
    by (simp add: power_int_minus field_simps)
  have e31: "rnd (rat_of_int 1 * 2 powi (- 31)) = rat_of_int 1 * 2 powi (- 31)"
    by (rule rnd_exact) simp_all
  have e30: "rnd (rat_of_int 1 * 2 powi (- 30)) = rat_of_int 1 * 2 powi (- 30)"
    by (rule rnd_exact) simp_all
  have "rnd (2 powi (- 31)) \<le> rnd ?x"
    by (rule rnd_mono) (simp_all add: p31)
  then have lo: "2 powi (- 31) \<le> rnd ?x" using e31 by simp
  have "rnd ?x \<le> rnd (2 powi (- 30))"
    by (rule rnd_mono) (simp_all add: p30)
  then have hi: "rnd ?x \<le> 2 powi (- 30)" using e30 by simp
  have "\<bar>rnd (- ?x)\<bar> \<le> rat_of_int 1"
    using lo hi by (simp add: rnd_minus p30 p31)
  moreover have "(1::int) < 2 ^ 1024" by simp
  ultimately have "rounded (- ?x) = Finite (- rnd ?x)"
    by (simp only: rounded_finite rnd_minus)
  moreover have "rounded (- 1) = Finite (- 1)"
    using rounded_of_int[of "- 1"] by simp
  ultimately have "Random_float \<lparr>seed = Finite 0\<rparr> = (Finite (- rnd ?x), \<lparr>seed = Finite 0\<rparr>)"
    by (simp add: Random_float_def zero_state_integer num_sub_def num_div_def MAX_INT32_def)
  with lo hi show ?thesis by blast
qed

lemma negative_index:
  assumes g: "2 powi (- 31) \<le> g" "g \<le> 2 powi (- 30)" and k: "1 \<le> k" "k \<le> 4"
  shows "num_floor (num_mul (Finite (- g)) k) = Finite (- 1)"
proof -
  have p31: "(2::rat) powi (- 31) = 1 / 2147483648"
    by (simp add: power_int_minus field_simps)
  have p30: "(2::rat) powi (- 30) = 1 / 1073741824"
    by (simp add: power_int_minus field_simps)
  have p28: "(2::rat) powi (- 28) = 1 / 268435456"
    by (simp add: power_int_minus field_simps)
  have e31: "rnd (rat_of_int 1 * 2 powi (- 31)) = rat_of_int 1 * 2 powi (- 31)"
    by (rule rnd_exact) simp_all
  have e28: "rnd (rat_of_int 1 * 2 powi (- 28)) = rat_of_int 1 * 2 powi (- 28)"
    by (rule rnd_exact) simp_all
  have gpos: "0 < g" using g(1) by (simp add: p31)
  have "g * 1 \<le> g * k" using gpos k(1) by (simp only: mult_le_cancel_left_pos)
  then have "g \<le> g * k" by (simp only: mult_1_right)
  with g(1) have x1: "2 powi (- 31) \<le> g * k" by (rule order_trans)
  have "g * k \<le> g * 4" using gpos k(2) by (simp only: mult_le_cancel_left_pos)
  moreover have "g * 4 \<le> 2 powi (- 28)" using g(2) by (simp add: p30 p28)
  ultimately have x2: "g * k \<le> 2 powi (- 28)" by (rule order_trans)
  have "rnd (2 powi (- 31)) \<le> rnd (g * k)"
    using x1 by (intro rnd_mono) (simp_all add: p31)
  then have lo: "2 powi (- 31) \<le> rnd (g * k)" using e31 by simp
  have "0 \<le> g * k" using x1 by (simp add: p31)
  then have "rnd (g * k) \<le> rnd (2 powi (- 28))"
    using x2 by (rule rnd_mono)
  then have hi: "rnd (g * k) \<le> 2 powi (- 28)" using e28 by simp
  have "\<bar>rnd (- (g * k))\<bar> \<le> rat_of_int 1"
    using lo hi by (simp add: rnd_minus p28 p31)
  moreover have "(1::int) < 2 ^ 1024" by simp
  ultimately have f: "rounded (- (g * k)) = Finite (- rnd (g * k))"
    by (simp only: rounded_finite rnd_minus)
  have "\<lfloor>- rnd (g * k)\<rfloor> = - 1"
    using lo hi by (simp add: floor_eq_iff p28 p31)
  then show ?thesis
    by (simp add: num_floor_def num_mul_def f)
qed

lemma zero_state_swaps:
  "shuffle_swaps 2 \<lparr>seed = Finite 0\<rparr> = [(2, Finite (- 1)), (1, Finite (- 1))]"
proof -
  from zero_state_float obtain g
    where g: "Random_float \<lparr>seed = Finite 0\<rparr> = (Finite (- g), \<lparr>seed = Finite 0\<rparr>)"
      "2 powi (- 31) \<le> g" "g \<le> 2 powi (- 30)"
    by blast
  have "num_floor (num_mul (Finite (- g)) 3) = Finite (- 1)"
    "num_floor (num_mul (Finite (- g)) 2) = Finite (- 1)"
    by (rule negative_index[OF g(2,3)]; simp)+
  then show ?thesis
    by (simp add: numeral_2_eq_2 g(1))
qed

lemma zero_state_shuffle:
  "items (fst (shuffle (of_list [x, y, z]) \<lparr>seed = Finite 0\<rparr>)) = [Some x, Some z, None]"
proof -
  have "length (items (of_list [x, y, z])) - 1 = 2"
    by (simp add: of_list_def)
  then have "fst (shuffle (of_list [x, y, z]) \<lparr>seed = Finite 0\<rparr>)
          = foldl exchange (of_list [x, y, z]) [(2, Finite (- 1)), (1, Finite (- 1))]"
    by (simp only: shuffle_def shuffle_loop_swaps zero_state_swaps)
  then show ?thesis
    by (simp add: exchange_def js_get_def js_set_def array_index_def of_list_def)
qed

text \<open>
  C10. The range \<open>[1, 2^31 - 2]\<close> of the state is kept by \<open>integer()\<close>
  (\<open>Random_integer_in_range\<close>), and from it \<open>float()\<close> lies in \<open>[0, 1)\<close> and the
  shuffle permutes in bounds (\<open>Random_float_in_range\<close>, \<open>shuffle_permutes\<close>); but
  the constructor does not reach the range from every seed.  The seed
  \<open>-2147483646\<close> has the remainder \<open>-(2^31 - 2)\<close>, which the correction
  \<open>+= MAX_INT32 - 1\<close> sends to \<open>0\<close>: the state is \<open>0\<close> and stays \<open>0\<close>, \<open>float()\<close>
  is negative, the shuffle reads and writes index \<open>-1\<close>, and the array
  \<open>[1, 2, 3]\<close> comes back as \<open>[1, 3, undefined]\<close>.
\<close>

theorem Random_constructor_zero_state:
  "seed (Random_constructor (Finite (- 2147483646))) = Finite 0
   \<and> \<not> in_range (Random_constructor (Finite (- 2147483646)))
   \<and> Random_integer (Random_constructor (Finite (- 2147483646)))
       = (Finite 0, Random_constructor (Finite (- 2147483646)))
   \<and> (\<exists>q. fst (Random_float (Random_constructor (Finite (- 2147483646)))) = Finite q \<and> q < 0)
   \<and> shuffle_swaps 2 (Random_constructor (Finite (- 2147483646)))
       = [(2, Finite (- 1)), (1, Finite (- 1))]
   \<and> items (fst (shuffle (of_list [1::nat, 2, 3]) (Random_constructor (Finite (- 2147483646)))))
       = [Some 1, Some 3, None]"
proof -
  from zero_state_float obtain g
    where g: "Random_float \<lparr>seed = Finite 0\<rparr> = (Finite (- g), \<lparr>seed = Finite 0\<rparr>)"
      "2 powi (- 31) \<le> g"
    by blast
  have "(0::rat) < 2 powi (- 31)" by (rule zero_less_power_int) simp
  with g(2) have "- g < 0" by simp
  with g(1) have "\<exists>q. fst (Random_float \<lparr>seed = Finite 0\<rparr>) = Finite q \<and> q < 0" by simp
  then show ?thesis
    unfolding zero_state
    by (simp only: zero_state_integer zero_state_swaps zero_state_shuffle in_range_def)
      simp
qed
section \<open>Properties of the flattening\<close>

lemma indexOf_nth:
  "distinct xs \<Longrightarrow> k < length xs \<Longrightarrow> indexOf xs (xs ! k) = int k"
proof (induction xs arbitrary: k)
  case Nil
  then show ?case by simp
next
  case (Cons y ys)
  show ?case
  proof (cases k)
    case 0
    then show ?thesis by simp
  next
    case (Suc k')
    with Cons.prems have "k' < length ys" "distinct ys" "ys ! k' \<noteq> y"
      by auto
    with Cons.IH[of k'] Suc show ?thesis by (simp add: Let_def)
  qed
qed

lemma indexOf_middle:
  assumes "distinct (map f (pre @ c # rest))"
  shows "indexOf (map f (pre @ c # rest)) (f c) = int (length pre)"
proof -
  have "indexOf (map f (pre @ c # rest)) (map f (pre @ c # rest) ! length pre) = int (length pre)"
    by (rule indexOf_nth[OF assms]) simp
  then show ?thesis by (simp add: nth_append)
qed

lemma iter_parents: "iter s ps = map (under ps) (iter s [])"
proof (induction s arbitrary: ps)
  case (Suite i d ss ts)
  have sub: "iter c (qs @ [c]) = map (under qs) (iter c [c])" if "c \<in> set ss" for c qs
  proof -
    have "iter c (qs @ [c]) = map (under (qs @ [c])) (iter c [])"
      by (rule Suite.IH[OF that])
    moreover have "iter c [c] = map (under [c]) (iter c [])"
      by (rule Suite.IH[OF that])
    ultimately show ?thesis by (simp add: under_def comp_def case_prod_unfold)
  qed
  have "concat (map (\<lambda>c. iter c (ps @ [c])) ss) = concat (map (\<lambda>c. map (under ps) (iter c [c])) ss)"
    using sub by (intro arg_cong[where f = concat] map_cong) simp_all
  also have "\<dots> = map (under ps) (concat (map (\<lambda>c. iter c [c]) ss))"
    by (simp add: map_concat comp_def)
  finally show ?case
    by (simp add: under_def comp_def)
qed

lemma seq_of_under:
  assumes "distinct (map sid (pre @ c # rest))"
  shows "seq_of (Suite i d (pre @ c # rest) ts) acc (under [c] item)
           = seq_of c (acc @ [int (length pre)]) item"
  using indexOf_middle[OF assms]
  by (cases item) (simp add: seq_of_def under_def)

lemma seq_positions_from:
  assumes "\<And>c acc'. c \<in> set rest \<Longrightarrow>
             map (seq_of c acc') (iter c []) = map (\<lambda>(si, ti). (acc' @ si, ti)) (positions c)"
    and "distinct (map sid (pre @ rest))"
  shows "concat (map (\<lambda>c. map (seq_of (Suite i d (pre @ rest) ts) acc) (iter c [c])) rest)
           = map (\<lambda>(si, ti). (acc @ si, ti)) (positions_from (length pre) rest)"
  using assms
proof (induction rest arbitrary: pre)
  case Nil
  show ?case by simp
next
  case (Cons c rest)
  have hd: "map (seq_of (Suite i d (pre @ c # rest) ts) acc) (iter c [c])
              = map (\<lambda>(si, ti). (acc @ si, ti))
                  (map (\<lambda>(si, ti). (int (length pre) # si, ti)) (positions c))"
  proof -
    have "map (seq_of (Suite i d (pre @ c # rest) ts) acc) (iter c [c])
            = map (seq_of c (acc @ [int (length pre)])) (iter c [])"
      by (subst iter_parents) (simp add: comp_def seq_of_under[OF Cons.prems(2)])
    also have "\<dots> = map (\<lambda>(si, ti). ((acc @ [int (length pre)]) @ si, ti)) (positions c)"
      by (rule Cons.prems(1)) simp
    finally show ?thesis by (simp add: comp_def case_prod_unfold)
  qed
  have tl: "concat (map (\<lambda>c'. map (seq_of (Suite i d ((pre @ [c]) @ rest) ts) acc) (iter c' [c'])) rest)
              = map (\<lambda>(si, ti). (acc @ si, ti)) (positions_from (length (pre @ [c])) rest)"
    using Cons.prems by (intro Cons.IH) simp_all
  show ?case using hd tl by simp
qed

lemma seq_positions:
  "distinct_ids s \<Longrightarrow>
   map (seq_of s acc) (iter s []) = map (\<lambda>(si, ti). (acc @ si, ti)) (positions s)"
proof (induction s arbitrary: acc)
  case (Suite i d ss ts)
  from Suite.prems have ds: "distinct (map sid ss)" and dt: "distinct (map tid ts)"
    and sub: "\<And>c. c \<in> set ss \<Longrightarrow> distinct_ids c"
    by (simp_all add: list_all_iff)
  have a: "concat (map (\<lambda>c. map (seq_of (Suite i d ([] @ ss) ts) acc) (iter c [c])) ss)
             = map (\<lambda>(si, ti). (acc @ si, ti)) (positions_from (length ([] :: Suite list)) ss)"
    by (rule seq_positions_from) (simp_all add: Suite.IH sub ds)
  have b: "map (seq_of (Suite i d ss ts) acc) (map (\<lambda>test. ([], test, new_status)) ts)
             = map (\<lambda>(si, ti). (acc @ si, ti)) (map (\<lambda>k. ([], int k)) [0..<length ts])"
  proof (rule nth_equalityI)
    show "length (map (seq_of (Suite i d ss ts) acc) (map (\<lambda>test. ([], test, new_status)) ts))
            = length (map (\<lambda>(si, ti). (acc @ si, ti)) (map (\<lambda>k. ([], int k)) [0..<length ts]))"
      by simp
  next
    fix k
    assume "k < length (map (seq_of (Suite i d ss ts) acc) (map (\<lambda>test. ([], test, new_status)) ts))"
    then have k: "k < length ts" by simp
    then have "indexOf (map tid ts) (map tid ts ! k) = int k"
      by (intro indexOf_nth dt) simp
    with k show "map (seq_of (Suite i d ss ts) acc) (map (\<lambda>test. ([], test, new_status)) ts) ! k
            = map (\<lambda>(si, ti). (acc @ si, ti)) (map (\<lambda>k. ([], int k)) [0..<length ts]) ! k"
      by (simp add: seq_of_def)
  qed
  show ?case using a b by (simp add: map_concat comp_def)
qed

lemma locate_middle:
  "locate (Suite i d (pre @ c # rest) ts) (int (length pre) # si) ti
     = (case locate c si ti of None \<Rightarrow> None | Some (ps, t) \<Rightarrow> Some (c # ps, t))"
  by (simp add: nth_append split: option.split)

lemma locate_positions_from:
  assumes "\<And>c. c \<in> set rest \<Longrightarrow>
             map (\<lambda>(si, ti). locate c si ti) (positions c) = map pair_of (iter c [])"
  shows "map (\<lambda>(si, ti). locate (Suite i d (pre @ rest) ts) si ti) (positions_from (length pre) rest)
           = concat (map (\<lambda>c. map pair_of (iter c [c])) rest)"
  using assms
proof (induction rest arbitrary: pre)
  case Nil
  show ?case by simp
next
  case (Cons c rest)
  let ?lift = "\<lambda>r. case r of None \<Rightarrow> None | Some (ps, t) \<Rightarrow> Some (c # ps, t)"
  have hd: "map (\<lambda>(si, ti). locate (Suite i d (pre @ c # rest) ts) si ti)
              (map (\<lambda>(si, ti). (int (length pre) # si, ti)) (positions c))
            = map pair_of (iter c [c])"
  proof -
    have "map (\<lambda>(si, ti). locate (Suite i d (pre @ c # rest) ts) si ti)
              (map (\<lambda>(si, ti). (int (length pre) # si, ti)) (positions c))
          = map ?lift (map (\<lambda>(si, ti). locate c si ti) (positions c))"
      by (simp add: comp_def case_prod_unfold locate_middle del: locate.simps)
    also have "\<dots> = map ?lift (map pair_of (iter c []))"
      by (simp add: Cons.prems)
    also have "\<dots> = map pair_of (iter c [c])"
      by (subst (2) iter_parents) (simp add: comp_def pair_of_def under_def case_prod_unfold)
    finally show ?thesis .
  qed
  have tl: "map (\<lambda>(si, ti). locate (Suite i d ((pre @ [c]) @ rest) ts) si ti)
              (positions_from (length (pre @ [c])) rest)
            = concat (map (\<lambda>c. map pair_of (iter c [c])) rest)"
    using Cons.prems by (intro Cons.IH) simp_all
  show ?case using hd tl by simp
qed

lemma locate_positions:
  "map (\<lambda>(si, ti). locate s si ti) (positions s) = map pair_of (iter s [])"
proof (induction s)
  case (Suite i d ss ts)
  have a: "map (\<lambda>(si, ti). locate (Suite i d ([] @ ss) ts) si ti)
             (positions_from (length ([] :: Suite list)) ss)
           = concat (map (\<lambda>c. map pair_of (iter c [c])) ss)"
    by (rule locate_positions_from) (simp add: Suite.IH)
  have b: "map (\<lambda>(si, ti). locate (Suite i d ss ts) si ti) (map (\<lambda>k. ([], int k)) [0..<length ts])
           = map pair_of (map (\<lambda>test. ([], test, new_status)) ts)"
    by (rule nth_equalityI) (simp_all add: pair_of_def)
  show ?case using a b by (simp add: map_concat comp_def)
qed

text \<open>
  C8. The serialised tree holds, for each suite, its sub-suites in order and its
  tests in order; \<open>positions\<close> lists the sequence identifiers in that order.
  Flattening yields exactly the pairs found at these positions, in this order; the
  sequence identifiers \<open>to_seq\<close> computes along the flattened list are these
  positions; so following the identifier of a pair from the top-level suite reaches
  that pair.  The identities of sibling objects are distinct, as they are in a
  deserialised tree.
\<close>

theorem iter_declaration_order:
  assumes "distinct_ids top_level"
  shows "map (\<lambda>(ss, test, st). Some (ss, test)) (iter top_level [])
           = map (\<lambda>(si, ti). locate top_level si ti) (positions top_level)
       \<and> map (\<lambda>(ss, test, st). to_seq top_level ss test) (iter top_level []) = positions top_level
       \<and> (\<forall>(ss, test, st) \<in> set (iter top_level []).
            locate top_level (fst (to_seq top_level ss test)) (snd (to_seq top_level ss test))
              = Some (ss, test))"
proof -
  have p: "(\<lambda>(ss, test, st). Some (ss, test)) = pair_of"
    by (simp add: pair_of_def fun_eq_iff)
  have q: "(\<lambda>(ss, test, st). to_seq top_level ss test) = seq_of top_level []"
    by (simp add: seq_of_def to_seq_def fun_eq_iff)
  have a: "map pair_of (iter top_level [])
             = map (\<lambda>(si, ti). locate top_level si ti) (positions top_level)"
    by (simp add: locate_positions)
  have b: "map (seq_of top_level []) (iter top_level []) = positions top_level"
    using seq_positions[OF assms, of "[]"] by simp
  have c: "locate top_level (fst (seq_of top_level [] item)) (snd (seq_of top_level [] item))
             = pair_of item" if "item \<in> set (iter top_level [])" for item
  proof -
    from that obtain n where n: "n < length (iter top_level [])" "item = iter top_level [] ! n"
      by (auto simp: in_set_conv_nth)
    from b n have len: "n < length (positions top_level)"
      by (metis length_map)
    from b n have s: "seq_of top_level [] item = positions top_level ! n"
      by (metis nth_map)
    from a n have "pair_of item
        = map (\<lambda>(si, ti). locate top_level si ti) (positions top_level) ! n"
      by (metis nth_map)
    also have "\<dots> = locate top_level (fst (positions top_level ! n)) (snd (positions top_level ! n))"
      using len by (simp add: case_prod_unfold)
    finally show ?thesis by (simp add: s)
  qed
  have c': "\<forall>(ss, test, st) \<in> set (iter top_level []).
            locate top_level (fst (to_seq top_level ss test)) (snd (to_seq top_level ss test))
              = Some (ss, test)"
  proof (clarify)
    fix ss test st
    assume "(ss, test, st) \<in> set (iter top_level [])"
    from c[OF this] show "locate top_level (fst (to_seq top_level ss test)) (snd (to_seq top_level ss test))
              = Some (ss, test)"
      by (simp add: seq_of_def to_seq_def pair_of_def)
  qed
  show ?thesis
    unfolding p q using a b c' by blast
qed

theorem iter_declaration_order_witness:
  "distinct_ids example_suite
   \<and> map (\<lambda>(ss, test, st). to_seq example_suite ss test) (iter example_suite [])
       = [([0], 0), ([0], 1), ([], 0)]
   \<and> map (\<lambda>(ss, test, st). (map sid ss, tid test)) (iter example_suite [])
       = [([1], 2), ([1], 3), ([], 4)]
   \<and> map (\<lambda>(si, ti). map_option (\<lambda>(ss, test). (map sid ss, tid test)) (locate example_suite si ti))
        [([0], 0), ([0], 1), ([], 0)]
       = [Some ([1], 2), Some ([1], 3), Some ([], 4)]"
proof -
  have h: "distinct_ids example_suite"
    by (simp add: example_suite_def)
  have e: "positions example_suite = [([0], 0), ([0], 1), ([], 0)]"
    by (simp add: example_suite_def)
  have i: "map (\<lambda>(ss, test, st). (map sid ss, tid test)) (iter example_suite [])
       = [([1], 2), ([1], 3), ([], 4)]"
    by (simp add: example_suite_def)
  have l: "map (\<lambda>(si, ti). map_option (\<lambda>(ss, test). (map sid ss, tid test)) (locate example_suite si ti))
        [([0], 0), ([0], 1), ([], 0)]
       = [Some ([1], 2), Some ([1], 3), Some ([], 4)]"
    by (simp add: example_suite_def)
  from iter_declaration_order[OF h] e
  have "map (\<lambda>(ss, test, st). to_seq example_suite ss test) (iter example_suite [])
       = [([0], 0), ([0], 1), ([], 0)]"
    by simp
  with h i l show ?thesis by blast
qed

section \<open>Properties of one attempt\<close>

lemma extends_refl: "extends st st"
  by (simp add: extends_def)

lemma extends_trans: "extends a b \<Longrightarrow> extends b c \<Longrightarrow> extends a c"
  by (auto simp: extends_def)

lemma check_screenshot_keeps:
  assumes "check_screenshot cfg libs test attempt bbox e (m, st) = (thrown, m', st')"
  shows "extends st st'" and "baseline st' = baseline st"
    and "baseline_diff st' = baseline_diff st"
  using assms
  by (auto simp: check_screenshot_def screenshot_test_def push_def extends_def Let_def
      split: option.splits if_splits)

lemma screenshot_test_stored_baseline:
  "screenshot_test libs test attempt (e\<lparr>existing_baseline := x, diff_text := y\<rparr>) ms
     = screenshot_test libs test attempt e ms"
  by (simp add: screenshot_test_def Let_def split: prod.split option.split)

lemma check_screenshot_stored_baseline:
  "check_screenshot cfg libs test attempt bbox (e\<lparr>existing_baseline := x, diff_text := y\<rparr>) ms
     = check_screenshot cfg libs test attempt bbox e ms"
  by (simp add: check_screenshot_def screenshot_test_stored_baseline Let_def
      split: option.split prod.split)

lemma check_state_inconsistent:
  assumes "r_state result = Some state_early"
    and "state_output e = Value (Some state_later)"
    and "create_baseline libs [state_early] \<noteq> create_baseline libs [state_later]"
  shows "check_state libs test result e (m, st)
           = (m, (push st [''inconsistent state'', ''early:'', create_baseline libs [state_early],
                           ''later:'', create_baseline libs [state_later]])\<lparr>failure := Some True\<rparr>)"
  using assms by (simp add: check_state_def check_baseline_def)

text \<open>
  C2. With a baselines directory configured, when \<open>Tests.run\<close> returns a result
  with a state and the follow-up query \<open>Tests.get_state\<close> returns a state whose
  baseline text differs from that of the first, the attempt marks the status failed
  and records \<open>inconsistent state\<close>; the stored baseline is not compared: the
  fields \<open>baseline\<close> and \<open>baseline_diff\<close> of the status stay as they were, and the
  outcome of the attempt is the same whatever the stored baseline and its difference
  are.
\<close>

theorem inconsistent_state_fails:
  assumes "cfg_baselines_root cfg = Some dir"
    and "run_output e = Value result"
    and "r_state result = Some state_early"
    and "state_output e = Value (Some state_later)"
    and "create_baseline libs [state_early] \<noteq> create_baseline libs [state_later]"
  shows "(case run_test cfg libs test seq attempt e st rn of
            (thrown, may_retry, st', rn') \<Rightarrow>
              failure st' = Some True
              \<and> ''inconsistent state'' \<in> set (errors st')
              \<and> baseline st' = baseline st
              \<and> baseline_diff st' = baseline_diff st)
       \<and> run_test cfg libs test seq attempt (e\<lparr>existing_baseline := x, diff_text := y\<rparr>) st rn
           = run_test cfg libs test seq attempt e st rn"
proof -
  let ?st0 = "note_console (entries rn @ new_entries e) (exceptions rn @ new_exceptions e) st"
  let ?st1 = "case r_error result of
                None \<Rightarrow> ?st0
              | Some (str, stack) \<Rightarrow>
                  (push ?st0 [case stack of None \<Rightarrow> str | Some s \<Rightarrow> s])\<lparr>failure := Some True\<rparr>"
  let ?st2 = "(push ?st1 [''inconsistent state'', ''early:'', create_baseline libs [state_early],
                          ''later:'', create_baseline libs [state_later]])\<lparr>failure := Some True\<rparr>"
  have b0: "baseline ?st0 = baseline st" "baseline_diff ?st0 = baseline_diff st"
    by (simp_all add: note_console_def push_def Let_def)
  have b1: "baseline ?st1 = baseline st" "baseline_diff ?st1 = baseline_diff st"
    using b0 by (simp_all add: push_def split: option.split)
  have out: "check_output cfg libs test attempt e (False, ?st0)
               = check_screenshot cfg libs test attempt (r_bbox result) e (False, ?st2)"
    using assms(1,2) check_state_inconsistent[OF assms(3,4,5)]
    by (simp add: check_output_def Let_def)
  obtain thrown m st3 where cs:
    "check_screenshot cfg libs test attempt (r_bbox result) e (False, ?st2) = (thrown, m, st3)"
    by (cases "check_screenshot cfg libs test attempt (r_bbox result) e (False, ?st2)")
  from check_screenshot_keeps[OF cs]
  have k: "extends ?st2 st3" "baseline st3 = baseline ?st2" "baseline_diff st3 = baseline_diff ?st2"
    by simp_all
  have f3: "failure st3 = Some True" "''inconsistent state'' \<in> set (errors st3)"
    using k(1) by (auto simp: extends_def push_def)
  have b3: "baseline st3 = baseline st" "baseline_diff st3 = baseline_diff st"
    using k(2,3) b1 by (simp_all add: push_def)
  let ?st4 = "case clear_output e of
                Failure t \<Rightarrow> (push st3 [t])\<lparr>failure := Some True\<rparr>
              | Value u \<Rightarrow> st3
              | Timeout \<Rightarrow> st3"
  have rt: "\<exists>rn'. run_test cfg libs test seq attempt e st rn = (thrown, m, ?st4, rn')"
    by (simp add: run_test_def Let_def out cs)
  have f4: "failure ?st4 = Some True" "''inconsistent state'' \<in> set (errors ?st4)"
    "baseline ?st4 = baseline st" "baseline_diff ?st4 = baseline_diff st"
    using f3 b3 by (simp_all add: push_def split: Evaluated.split)
  have first: "case run_test cfg libs test seq attempt e st rn of
            (thrown, may_retry, st', rn') \<Rightarrow>
              failure st' = Some True
              \<and> ''inconsistent state'' \<in> set (errors st')
              \<and> baseline st' = baseline st
              \<and> baseline_diff st' = baseline_diff st"
    using rt f4 by auto
  have e': "run_output (e\<lparr>existing_baseline := x, diff_text := y\<rparr>) = Value result"
    "state_output (e\<lparr>existing_baseline := x, diff_text := y\<rparr>) = Value (Some state_later)"
    using assms(2,4) by simp_all
  have out': "check_output cfg libs test attempt (e\<lparr>existing_baseline := x, diff_text := y\<rparr>) (False, ?st0)
               = check_screenshot cfg libs test attempt (r_bbox result) e (False, ?st2)"
    using assms(1) e'(1) check_state_inconsistent[OF assms(3) e'(2) assms(5)]
    by (simp add: check_output_def Let_def check_screenshot_stored_baseline)
  have second: "run_test cfg libs test seq attempt (e\<lparr>existing_baseline := x, diff_text := y\<rparr>) st rn
           = run_test cfg libs test seq attempt e st rn"
    using out out' by (simp add: run_test_def Let_def)
  from first second show ?thesis by blast
qed

theorem inconsistent_state_fails_witness:
  "cfg_baselines_root example_config = Some ''baselines''
   \<and> run_output example_attempt
        = Value \<lparr>r_error = None, r_state = Some ''early'', r_bbox = Some (0, 0, 1, 1)\<rparr>
   \<and> r_state \<lparr>r_error = None, r_state = Some ''early'', r_bbox = Some (0, 0, 1, 1)\<rparr>
        = Some ''early''
   \<and> state_output example_attempt = Value (Some ''later'')
   \<and> create_baseline example_libs [''early''] \<noteq> create_baseline example_libs [''later'']
   \<and> (case run_test example_config example_libs example_test ([0], 0) None example_attempt
               new_status init_runner of
          (thrown, may_retry, st', rn') \<Rightarrow>
            failure st' = Some True
            \<and> ''inconsistent state'' \<in> set (errors st')
            \<and> baseline st' = baseline new_status
            \<and> baseline_diff st' = baseline_diff new_status)
   \<and> run_test example_config example_libs example_test ([0], 0) None
         (example_attempt\<lparr>existing_baseline := None, diff_text := ''-later''\<rparr>)
         new_status init_runner
       = run_test example_config example_libs example_test ([0], 0) None example_attempt
           new_status init_runner"
proof -
  have h1: "cfg_baselines_root example_config = Some ''baselines''"
    by (simp add: example_config_def)
  have h2: "run_output example_attempt
        = Value \<lparr>r_error = None, r_state = Some ''early'', r_bbox = Some (0, 0, 1, 1)\<rparr>"
    by (simp add: example_attempt_def)
  have h3: "r_state \<lparr>r_error = None, r_state = Some ''early'', r_bbox = Some (0, 0, 1, 1)\<rparr>
        = Some ''early''"
    by simp
  have h4: "state_output example_attempt = Value (Some ''later'')"
    by (simp add: example_attempt_def)
  have h5: "create_baseline example_libs [''early''] \<noteq> create_baseline example_libs [''later'']"
    by (simp add: example_libs_def)
  from inconsistent_state_fails[OF h1 h2 h3 h4 h5, where test = example_test and seq = "([0], 0)"
      and attempt = None and st = new_status and rn = init_runner and x = None
      and y = "''-later''"] h1 h2 h3 h4 h5
  show ?thesis by blast
qed

text \<open>
  C5, as stated, fails in its last part.  A test with threshold 10 whose screenshot
  differs from the reference by 5 pixels is tolerated (no failure, no error), yet
  the attempt returns the retry flag: \<open>may_retry\<close> is set as soon as
  \<open>diff_image\<close> reports a difference, before the threshold is looked at.
\<close>

theorem tolerated_difference_may_retry:
  "threshold example_test = Some 10
   \<and> existing_image tolerated_attempt = Some [2]
   \<and> captured tolerated_attempt = [1]
   \<and> map_option d_pixels (diff_image example_libs [2] [1]) = Some 5
   \<and> run_test example_config example_libs example_test ([0], 0) None tolerated_attempt
         new_status init_runner
       = (None, True,
          new_status\<lparr>baseline := Some ''early'', reference := Some [2], image_buf := Some [1]\<rparr>,
          init_runner\<lparr>calls := [\<lparr>inv_seq = ([0], 0), inv_attempt = None, inv_may_retry = True,
                                   inv_threw = False\<rparr>]\<rparr>)"
  by (simp add: run_test_def check_output_def check_state_def check_baseline_def
      check_screenshot_def screenshot_test_def note_console_def push_def
      example_config_def example_libs_def example_test_def example_attempt_def
      tolerated_attempt_def new_status_def init_runner_def Let_def)

text \<open>
  C5, amended.  In screenshot mode \<open>test\<close> (or with no mode given), with a stored
  reference image that differs from the captured bitmap and a difference reported
  by \<open>diff_image\<close>: the screenshot step marks the status failed, with the message
  giving the pixel count and the percentage, if and only if the pixel count exceeds
  the threshold of the test (default 0); at or below the threshold it leaves the
  failure flag and the errors as they were.  In both cases the step sets the retry
  flag, and \<open>run_test\<close> returns it.
\<close>

theorem screenshot_threshold:
  assumes "cfg_screenshot cfg = None \<or> cfg_screenshot cfg = Some ''test''"
    and "existing_image e = Some existing"
    and "existing \<noteq> captured e"
    and "diff_image libs existing (captured e) = Some d"
    and "cfg_baselines_root cfg = Some dir"
    and "run_output e = Value result"
    and "r_bbox result = Some b"
  shows "(case check_screenshot cfg libs test attempt (Some b) e (m, st) of
            (thrown, m', st') \<Rightarrow>
              thrown = None \<and> m' = True
              \<and> reference st' = Some existing \<and> image_buf st' = Some (captured e)
              \<and> (if d_pixels d > (case threshold test of None \<Rightarrow> 0 | Some t \<Rightarrow> t)
                  then failure st' = Some True
                     \<and> errors st' = errors st @ [images_differ d attempt]
                     \<and> image_diff st' = Some (d_diff d)
                  else failure st' = failure st
                     \<and> errors st' = errors st
                     \<and> image_diff st' = image_diff st))
       \<and> fst (snd (run_test cfg libs test seq attempt e st0 rn)) = True"
proof -
  have blk: "check_screenshot cfg libs test attempt (Some b) e (m, s)
           = (None, True,
              if d_pixels d > (case threshold test of None \<Rightarrow> 0 | Some t \<Rightarrow> t)
              then push (s\<lparr>image_buf := Some (captured e), reference := Some existing,
                          failure := Some True, image_diff := Some (d_diff d)\<rparr>)
                     [images_differ d attempt]
              else s\<lparr>image_buf := Some (captured e), reference := Some existing\<rparr>)" for m s
    using assms(1-4)
    by (auto simp: check_screenshot_def screenshot_test_def Let_def)
  have first: "case check_screenshot cfg libs test attempt (Some b) e (m, st) of
            (thrown, m', st') \<Rightarrow>
              thrown = None \<and> m' = True
              \<and> reference st' = Some existing \<and> image_buf st' = Some (captured e)
              \<and> (if d_pixels d > (case threshold test of None \<Rightarrow> 0 | Some t \<Rightarrow> t)
                  then failure st' = Some True
                     \<and> errors st' = errors st @ [images_differ d attempt]
                     \<and> image_diff st' = Some (d_diff d)
                  else failure st' = failure st
                     \<and> errors st' = errors st
                     \<and> image_diff st' = image_diff st)"
    by (simp add: blk push_def)
  obtain m2 s2 where cs: "check_state libs test result e
      (False, case r_error result of
                None \<Rightarrow> note_console (entries rn @ new_entries e) (exceptions rn @ new_exceptions e) st0
              | Some (str, stack) \<Rightarrow>
                  (push (note_console (entries rn @ new_entries e) (exceptions rn @ new_exceptions e) st0)
                     [case stack of None \<Rightarrow> str | Some s \<Rightarrow> s])\<lparr>failure := Some True\<rparr>) = (m2, s2)"
    by fastforce
  have second: "fst (snd (run_test cfg libs test seq attempt e st0 rn)) = True"
    using assms(5-7) by (simp add: run_test_def check_output_def Let_def cs blk)
  from first second show ?thesis by blast
qed

theorem screenshot_threshold_witness:
  "(cfg_screenshot example_config = None \<or> cfg_screenshot example_config = Some ''test'')
   \<and> existing_image tolerated_attempt = Some [2]
   \<and> [2] \<noteq> captured tolerated_attempt
   \<and> diff_image example_libs [2] (captured tolerated_attempt)
        = Some \<lparr>d_diff = [], d_pixels = 5, d_percent = ''0.10''\<rparr>
   \<and> cfg_baselines_root example_config = Some ''baselines''
   \<and> run_output tolerated_attempt
        = Value \<lparr>r_error = None, r_state = Some ''early'', r_bbox = Some (0, 0, 1, 1)\<rparr>
   \<and> (case check_screenshot example_config example_libs (example_test\<lparr>threshold := None\<rparr>)
               (Some 3) (Some (0, 0, 1, 1)) tolerated_attempt (False, new_status) of
          (thrown, m', st') \<Rightarrow>
            thrown = None \<and> m' = True
            \<and> failure st' = Some True
            \<and> errors st' = [''images differ by 5px (0.10%) (attempt=3)''])
   \<and> fst (snd (run_test example_config example_libs (example_test\<lparr>threshold := None\<rparr>)
                   ([0], 0) (Some 3) tolerated_attempt new_status init_runner)) = True"
proof -
  let ?d = "\<lparr>d_diff = [], d_pixels = 5, d_percent = ''0.10''\<rparr>"
  let ?r = "\<lparr>r_error = None, r_state = Some ''early'', r_bbox = Some (0, 0, 1, 1)\<rparr>"
  have h1: "cfg_screenshot example_config = None \<or> cfg_screenshot example_config = Some ''test''"
    by (simp add: example_config_def)
  have h2: "existing_image tolerated_attempt = Some [2]"
    by (simp add: tolerated_attempt_def example_attempt_def)
  have h3: "[2] \<noteq> captured tolerated_attempt"
    by (simp add: tolerated_attempt_def example_attempt_def)
  have h4: "diff_image example_libs [2] (captured tolerated_attempt) = Some ?d"
    by (simp add: example_libs_def)
  have h5: "cfg_baselines_root example_config = Some ''baselines''"
    by (simp add: example_config_def)
  have h6: "run_output tolerated_attempt = Value ?r"
    by (simp add: tolerated_attempt_def example_attempt_def)
  have h7: "r_bbox ?r = Some (0, 0, 1, 1)"
    by simp
  have msg: "images_differ ?d (Some 3) = ''images differ by 5px (0.10%) (attempt=3)''"
    by (simp add: images_differ_def)
  from screenshot_threshold[OF h1 h2 h3 h4 h5 h6 h7, where test = "example_test\<lparr>threshold := None\<rparr>"
      and attempt = "Some 3" and m = False and st = new_status and seq = "([0], 0)"
      and ?st0.0 = new_status and rn = init_runner]
  have "(case check_screenshot example_config example_libs (example_test\<lparr>threshold := None\<rparr>)
               (Some 3) (Some (0, 0, 1, 1)) tolerated_attempt (False, new_status) of
          (thrown, m', st') \<Rightarrow>
            thrown = None \<and> m' = True
            \<and> failure st' = Some True
            \<and> errors st' = [''images differ by 5px (0.10%) (attempt=3)''])
   \<and> fst (snd (run_test example_config example_libs (example_test\<lparr>threshold := None\<rparr>)
                   ([0], 0) (Some 3) tolerated_attempt new_status init_runner)) = True"
    by (auto simp: msg example_test_def new_status_def split: prod.splits)
  with h1 h2 h3 h4 h5 h6 show ?thesis by blast
qed

section \<open>Properties of the retries\<close>

lemma run_test_calls:
  assumes "run_test cfg libs test seq attempt e st rn = (thrown, m, st', rn')"
  shows "calls rn' = calls rn @ [\<lparr>inv_seq = seq, inv_attempt = attempt, inv_may_retry = m,
                                   inv_threw = (thrown \<noteq> None)\<rparr>]"
  using assms by (auto simp: run_test_def Let_def split: prod.splits)

lemma retry_calls_single:
  assumes "inv_attempt inv0 = Some i" "\<not> inv_may_retry inv0 \<or> inv_threw inv0"
  shows "retry_calls (Suc n) i [inv0]"
  using assms by (simp add: retry_calls_def)

lemma retry_calls_Cons:
  assumes "inv_attempt inv0 = Some i" "inv_may_retry inv0" "\<not> inv_threw inv0"
    and "retry_calls n (Suc i) invs"
  shows "retry_calls (Suc n) i (inv0 # invs)"
proof -
  from assms(4) have l: "length invs \<le> n"
    and t: "map inv_attempt invs = map Some [Suc i..<Suc i + length invs]"
    and b: "\<forall>inv \<in> set (butlast invs). inv_may_retry inv \<and> \<not> inv_threw inv"
    and e: "length invs < n \<longrightarrow> invs \<noteq> [] \<and> (\<not> inv_may_retry (last invs) \<or> inv_threw (last invs))"
    by (simp_all add: retry_calls_def)
  have u: "[i..<i + length (inv0 # invs)] = i # [Suc i..<Suc i + length invs]"
    by (simp add: upt_conv_Cons del: upt_Suc)
  have t': "map inv_attempt (inv0 # invs) = map Some [i..<i + length (inv0 # invs)]"
    unfolding u using assms(1) t by simp
  have b': "\<forall>inv \<in> set (butlast (inv0 # invs)). inv_may_retry inv \<and> \<not> inv_threw inv"
    using assms(2,3) b by simp
  have e': "length (inv0 # invs) < Suc n \<longrightarrow>
      inv0 # invs \<noteq> [] \<and> (\<not> inv_may_retry (last (inv0 # invs)) \<or> inv_threw (last (inv0 # invs)))"
    using e by simp
  show ?thesis
    unfolding retry_calls_def using l t' b' e' by simp
qed

lemma retry_loop_calls:
  assumes "retry_loop cfg libs test seq env n i st rn = (thrown, st', rn')"
  shows "\<exists>invs. calls rn' = calls rn @ invs \<and> retry_calls n i invs"
  using assms
proof (induction n arbitrary: i st rn)
  case 0
  then show ?case by (simp add: retry_calls_def)
next
  case (Suc n)
  obtain x m st1 rn1 where rt:
    "run_test cfg libs test seq (Some i) (env (Some i)) st rn = (x, m, st1, rn1)"
    by (cases "run_test cfg libs test seq (Some i) (env (Some i)) st rn")
  let ?inv0 = "\<lparr>inv_seq = seq, inv_attempt = Some i, inv_may_retry = m, inv_threw = (x \<noteq> None)\<rparr>"
  have c1: "calls rn1 = calls rn @ [?inv0]"
    by (rule run_test_calls[OF rt])
  show ?case
  proof (cases "x = None \<and> m")
    case True
    with Suc.prems rt have "retry_loop cfg libs test seq env n (Suc i) st1 rn1 = (thrown, st', rn')"
      by simp
    from Suc.IH[OF this] obtain invs where
      i: "calls rn' = calls rn1 @ invs" "retry_calls n (Suc i) invs"
      by blast
    have "retry_calls (Suc n) i (?inv0 # invs)"
      using True i(2) by (intro retry_calls_Cons) simp_all
    with i(1) c1 show ?thesis by auto
  next
    case False
    with Suc.prems rt have "rn' = rn1"
      by (auto split: option.splits if_splits)
    moreover have "retry_calls (Suc n) i [?inv0]"
      using False by (intro retry_calls_single) auto
    ultimately show ?thesis using c1 by auto
  qed
qed

text \<open>
  C6. The calls of \<open>run_test\<close> made for one test (\<open>new_calls\<close>): there is at
  least one and at most one more than the budget (\<open>test.retries\<close>, or 10); the
  first is untagged and the retries are tagged \<open>0, 1, 2, ...\<close> in order; every call
  but the last returned the retry flag (and did not throw); a retry happens only
  with a declared budget or the global flag; and when that is given and the budget
  was not used up, the last call did not return the retry flag (or it threw).
\<close>

theorem retry_attempts_bounded:
  assumes "run_attempts cfg libs test seq env st rn = (thrown, st', rn')"
  shows "calls rn' = calls rn @ new_calls rn rn'
       \<and> 1 \<le> length (new_calls rn rn')
       \<and> length (new_calls rn rn') \<le> 1 + budget test
       \<and> map inv_attempt (new_calls rn rn')
           = None # map Some [0..<length (new_calls rn rn') - 1]
       \<and> (\<forall>inv \<in> set (butlast (new_calls rn rn')). inv_may_retry inv \<and> \<not> inv_threw inv)
       \<and> (1 < length (new_calls rn rn') \<longrightarrow> cfg_retry cfg \<or> retries test \<noteq> None)
       \<and> ((cfg_retry cfg \<or> retries test \<noteq> None) \<and> length (new_calls rn rn') < 1 + budget test
            \<longrightarrow> \<not> inv_may_retry (last (new_calls rn rn')) \<or> inv_threw (last (new_calls rn rn')))"
proof -
  obtain x m st1 rn1 where rt:
    "run_test cfg libs test seq None (env None) st rn = (x, m, st1, rn1)"
    by (cases "run_test cfg libs test seq None (env None) st rn")
  let ?inv0 = "\<lparr>inv_seq = seq, inv_attempt = None, inv_may_retry = m, inv_threw = (x \<noteq> None)\<rparr>"
  have c1: "calls rn1 = calls rn @ [?inv0]"
    by (rule run_test_calls[OF rt])
  show ?thesis
  proof (cases "x = None \<and> (cfg_retry cfg \<or> retries test \<noteq> None) \<and> m")
    case True
    with assms rt have "retry_loop cfg libs test seq env (budget test) 0 st1 rn1 = (thrown, st', rn')"
      by (simp add: run_attempts_def budget_def)
    from retry_loop_calls[OF this] obtain invs where
      i: "calls rn' = calls rn1 @ invs" "retry_calls (budget test) 0 invs"
      by blast
    from i(1) c1 have n: "new_calls rn rn' = ?inv0 # invs"
      by (simp add: new_calls_def)
    from i(2) have l: "length invs \<le> budget test"
      and t: "map inv_attempt invs = map Some [0..<length invs]"
      and b: "\<forall>inv \<in> set (butlast invs). inv_may_retry inv \<and> \<not> inv_threw inv"
      and e: "length invs < budget test \<longrightarrow>
                invs \<noteq> [] \<and> (\<not> inv_may_retry (last invs) \<or> inv_threw (last invs))"
      by (simp_all add: retry_calls_def)
    have b': "\<forall>inv \<in> set (butlast (?inv0 # invs)). inv_may_retry inv \<and> \<not> inv_threw inv"
      using True b by simp
    have e': "length (?inv0 # invs) < 1 + budget test \<longrightarrow>
        \<not> inv_may_retry (last (?inv0 # invs)) \<or> inv_threw (last (?inv0 # invs))"
      using e by simp
    show ?thesis
      unfolding n using i(1) c1 l t b' e' True by simp
  next
    case False
    with assms rt have "rn' = rn1"
      by (auto simp: run_attempts_def split: option.splits if_splits)
    with c1 have n: "new_calls rn rn' = [?inv0]" "calls rn' = calls rn @ [?inv0]"
      by (simp_all add: new_calls_def)
    show ?thesis
      unfolding n using False by auto
  qed
qed

theorem retry_attempts_bounded_witness:
  "map inv_attempt
     (new_calls init_runner
        (snd (snd (run_attempts retrying_config example_libs flaky_test ([0], 0)
                     (\<lambda>a. tolerated_attempt) new_status init_runner))))
     = [None, Some 0, Some 1]
   \<and> budget flaky_test = 2
   \<and> length (new_calls init_runner
        (snd (snd (run_attempts retrying_config example_libs flaky_test ([0], 0)
                     (\<lambda>a. tolerated_attempt) new_status init_runner))))
       \<le> 1 + budget flaky_test"
proof -
  let ?r = "run_attempts retrying_config example_libs flaky_test ([0], 0)
              (\<lambda>a. tolerated_attempt) new_status init_runner"
  have h: "?r = (fst ?r, fst (snd ?r), snd (snd ?r))"
    by simp
  have rt: "run_test retrying_config example_libs flaky_test ([0], 0) a tolerated_attempt st rn
              = (None, True,
                 st\<lparr>baseline := Some ''early'', reference := Some [2], image_buf := Some [1]\<rparr>,
                 rn\<lparr>calls := calls rn @ [\<lparr>inv_seq = ([0], 0), inv_attempt = a,
                                          inv_may_retry = True, inv_threw = False\<rparr>]\<rparr>)"
    if "entries rn = []" "exceptions rn = []" for a st rn
    using that
    by (simp add: run_test_def check_output_def check_state_def check_baseline_def
        check_screenshot_def screenshot_test_def note_console_def push_def
        retrying_config_def example_config_def example_libs_def flaky_test_def example_test_def
        example_attempt_def tolerated_attempt_def Let_def)
  have cr: "cfg_retry retrying_config"
    by (simp add: retrying_config_def)
  have rf: "retries flaky_test = Some 2"
    by (simp add: flaky_test_def)
  have c: "calls (snd (snd ?r))
             = [\<lparr>inv_seq = ([0], 0), inv_attempt = None, inv_may_retry = True, inv_threw = False\<rparr>,
                \<lparr>inv_seq = ([0], 0), inv_attempt = Some 0, inv_may_retry = True, inv_threw = False\<rparr>,
                \<lparr>inv_seq = ([0], 0), inv_attempt = Some 1, inv_may_retry = True, inv_threw = False\<rparr>]"
    by (simp add: run_attempts_def rt cr rf numeral_2_eq_2 init_runner_def)
  have ic: "length (calls init_runner) = 0"
    by (simp add: init_runner_def)
  have a: "map inv_attempt (new_calls init_runner (snd (snd ?r))) = [None, Some 0, Some 1]"
    by (simp add: new_calls_def c ic)
  have b: "budget flaky_test = 2"
    by (simp add: budget_def flaky_test_def)
  from retry_attempts_bounded[OF h] a b show ?thesis by blast
qed

section \<open>Properties of the loop over the tests\<close>

lemma extends_flagged: "extends st st' \<Longrightarrow> flagged st \<Longrightarrow> flagged st'"
  by (auto simp: extends_def flagged_def)

lemma extends_push: "extends st (push st es)"
  by (simp add: extends_def push_def)

lemma extends_push_failure: "extends st ((push st es)\<lparr>failure := Some True\<rparr>)"
  by (simp add: extends_def push_def)

lemma note_console_extends: "extends st (note_console es xs st)"
  by (simp add: note_console_def extends_def push_def Let_def)

lemma check_baseline_extends:
  "check_baseline libs test a b e (m, st) = (m', st') \<Longrightarrow> extends st st'"
  by (auto simp: check_baseline_def extends_def push_def Let_def split: if_splits option.splits)

lemma check_state_extends:
  assumes "check_state libs test result e (m, st) = (m', st')"
  shows "extends st st'"
proof (cases "r_state result")
  case None
  with assms show ?thesis
    by (auto simp: check_state_def extends_def push_def)
next
  case (Some a)
  show ?thesis
  proof (cases "state_output e")
    case (Value v)
    with assms Some show ?thesis
      by (cases v) (auto simp: check_state_def extends_def push_def dest: check_baseline_extends)
  next
    case (Failure t)
    with assms Some show ?thesis
      by (auto simp: check_state_def extends_def push_def)
  next
    case Timeout
    with assms Some show ?thesis
      by (auto simp: check_state_def extends_def push_def)
  qed
qed

lemma check_output_extends:
  assumes "check_output cfg libs test attempt e (m, st) = (x, m', st')"
  shows "extends st st'"
proof (cases "run_output e")
  case (Failure t)
  with assms show ?thesis
    by (auto simp: check_output_def extends_def push_def)
next
  case Timeout
  with assms show ?thesis
    by (auto simp: check_output_def extends_def push_def)
next
  case (Value result)
  let ?st1 = "case r_error result of
                None \<Rightarrow> st
              | Some (str, stack) \<Rightarrow>
                  (push st [case stack of None \<Rightarrow> str | Some s \<Rightarrow> s])\<lparr>failure := Some True\<rparr>"
  have e1: "extends st ?st1"
    by (auto simp: extends_def push_def split: option.split)
  show ?thesis
  proof (cases "cfg_baselines_root cfg")
    case None
    with assms Value e1 show ?thesis
      by (simp add: check_output_def Let_def)
  next
    case (Some dir)
    obtain m2 st2 where cs: "check_state libs test result e (m, ?st1) = (m2, st2)"
      by fastforce
    from assms Value Some cs
    have "check_screenshot cfg libs test attempt (r_bbox result) e (m2, st2) = (x, m', st')"
      by (simp add: check_output_def Let_def)
    from check_screenshot_keeps(1)[OF this] check_state_extends[OF cs] e1
    show ?thesis by (blast intro: extends_trans)
  qed
qed

lemma run_test_extends:
  assumes "run_test cfg libs test seq attempt e st rn = (x, m, st', rn')"
  shows "extends st st'" and "same_books rn rn'"
proof -
  let ?st1 = "note_console (entries rn @ new_entries e) (exceptions rn @ new_exceptions e) st"
  obtain x2 m2 st2 where co: "check_output cfg libs test attempt e (False, ?st1) = (x2, m2, st2)"
    by (cases "check_output cfg libs test attempt e (False, ?st1)")
  from assms co have s: "st' = (case clear_output e of
                           Failure t \<Rightarrow> (push st2 [t])\<lparr>failure := Some True\<rparr>
                         | Value u \<Rightarrow> st2
                         | Timeout \<Rightarrow> st2)"
    by (simp add: run_test_def Let_def)
  have "extends st2 st'"
    unfolding s by (simp add: extends_def push_def split: Evaluated.split)
  with check_output_extends[OF co] note_console_extends[of st]
  show "extends st st'" by (blast intro: extends_trans)
  from assms co show "same_books rn rn'"
    by (auto simp: run_test_def Let_def same_books_def)
qed

lemma same_books_trans: "same_books a b \<Longrightarrow> same_books b c \<Longrightarrow> same_books a c"
  by (simp add: same_books_def)

lemma retry_loop_extends:
  assumes "retry_loop cfg libs test seq env n i st rn = (x, st', rn')"
  shows "extends st st' \<and> same_books rn rn'"
  using assms
proof (induction n arbitrary: i st rn)
  case 0
  then show ?case by (simp add: extends_refl same_books_def)
next
  case (Suc n)
  obtain x1 m st1 rn1 where rt:
    "run_test cfg libs test seq (Some i) (env (Some i)) st rn = (x1, m, st1, rn1)"
    by (cases "run_test cfg libs test seq (Some i) (env (Some i)) st rn")
  note k = run_test_extends[OF rt]
  show ?case
  proof (cases "x1 = None \<and> m")
    case True
    with Suc.prems rt have "retry_loop cfg libs test seq env n (Suc i) st1 rn1 = (x, st', rn')"
      by simp
    from Suc.IH[OF this] k show ?thesis
      by (blast intro: extends_trans same_books_trans)
  next
    case False
    with Suc.prems rt have "st' = st1" "rn' = rn1"
      by (auto split: option.splits if_splits)
    with k show ?thesis by simp
  qed
qed

lemma run_attempts_extends:
  assumes "run_attempts cfg libs test seq env st rn = (x, st', rn')"
  shows "extends st st'" and "same_books rn rn'"
proof -
  obtain x1 m st1 rn1 where rt:
    "run_test cfg libs test seq None (env None) st rn = (x1, m, st1, rn1)"
    by (cases "run_test cfg libs test seq None (env None) st rn")
  note k = run_test_extends[OF rt]
  have "extends st st' \<and> same_books rn rn'"
  proof (cases "x1 = None \<and> (cfg_retry cfg \<or> retries test \<noteq> None) \<and> m")
    case True
    with assms rt have "retry_loop cfg libs test seq env
        (case retries test of None \<Rightarrow> 10 | Some n \<Rightarrow> n) 0 st1 rn1 = (x, st', rn')"
      by (simp add: run_attempts_def)
    from retry_loop_extends[OF this] k show ?thesis
      by (blast intro: extends_trans same_books_trans)
  next
    case False
    with assms rt have "st' = st1" "rn' = rn1"
      by (auto simp: run_attempts_def split: option.splits if_splits)
    with k show ?thesis by simp
  qed
  then show "extends st st'" and "same_books rn rn'" by simp_all
qed

lemma books_ok_append:
  assumes "books_ok rn"
    and "set (baseline_names rn) \<subseteq> set (baseline_names rn')"
    and "name_of item \<in> set (baseline_names rn')"
    and "name_of item \<in> set (baseline_names rn) \<longrightarrow> flagged (status_of item)"
    and "finished rn' = finished rn @ [item]"
  shows "books_ok rn'"
proof -
  from assms(1) have old1: "\<forall>it \<in> set (finished rn). name_of it \<in> set (baseline_names rn)"
    and old2: "\<forall>j < length (finished rn). \<forall>i < j.
            name_of (finished rn ! i) = name_of (finished rn ! j)
            \<longrightarrow> flagged (status_of (finished rn ! j))"
    by (simp_all add: books_ok_def)
  have new1: "\<forall>it \<in> set (finished rn'). name_of it \<in> set (baseline_names rn')"
    using old1 assms(2,3,5) by auto
  have new2: "flagged (status_of (finished rn' ! j))"
    if j: "j < length (finished rn')" and i: "i < j"
      and eq: "name_of (finished rn' ! i) = name_of (finished rn' ! j)" for i j
  proof (cases "j < length (finished rn)")
    case True
    with i eq old2 show ?thesis
      by (simp add: assms(5) nth_append)
  next
    case False
    with j have jl: "j = length (finished rn)" by (simp add: assms(5))
    then have item: "finished rn' ! j = item" by (simp add: assms(5))
    from i jl have "finished rn' ! i = finished rn ! i" "finished rn ! i \<in> set (finished rn)"
      by (simp_all add: assms(5) nth_append)
    with old1 eq item have "name_of item \<in> set (baseline_names rn)" by metis
    with assms(4) item show ?thesis by simp
  qed
  show ?thesis
    unfolding books_ok_def using new1 new2 by blast
qed

lemma check_name_books:
  assumes "check_name name st rn = (st1, rn1)"
  shows "set (baseline_names rn) \<subseteq> set (baseline_names rn1)"
    and "name \<in> set (baseline_names rn1)"
    and "name \<in> set (baseline_names rn) \<longrightarrow> flagged st1"
    and "finished rn1 = finished rn" and "failures rn1 = failures rn"
  using assms
  by (auto simp: check_name_def Let_def flagged_def push_def split: if_splits)

lemma tally_books:
  "baseline_names (tally st rn) = baseline_names rn" "finished (tally st rn) = finished rn"
  "failure st = Some True \<Longrightarrow> failures (tally st rn) \<noteq> 0"
  "failures rn \<noteq> 0 \<Longrightarrow> failures (tally st rn) \<noteq> 0"
  by (simp_all add: tally_def Let_def)

lemma run_test_case_books:
  assumes "run_test_case cfg libs top_level env tc rn = (x, rn')" and "books_ok rn"
  shows "books_ok rn'" and "x = None \<Longrightarrow> tallied rn \<Longrightarrow> tallied rn'"
proof -
  obtain ss test status where tc: "tc = (ss, test, status)" by (cases tc)
  let ?name = "encode (description ss test ''__'')"
  let ?rn0 = "rn\<lparr>entries := [], exceptions := []\<rparr>"
  obtain st1 rn1 where cn: "check_name ?name status ?rn0 = (st1, rn1)"
    by fastforce
  note c = check_name_books[OF cn]
  have "\<exists>st2 rn2. extends st1 st2 \<and> same_books rn1 rn2
          \<and> finished rn' = finished rn2 @ [(ss, test, st2)]
          \<and> baseline_names rn' = baseline_names rn2
          \<and> (x = None \<longrightarrow> (failure st2 = Some True \<longrightarrow> failures rn' \<noteq> 0)
                          \<and> (failures rn2 \<noteq> 0 \<longrightarrow> failures rn' \<noteq> 0))"
  proof (cases "skip test")
    case True
    with assms(1) tc cn
    have r: "x = None"
      "rn' = (tally (st1\<lparr>skipped := Some True\<rparr>) rn1)
               \<lparr>finished := finished rn1 @ [(ss, test, st1\<lparr>skipped := Some True\<rparr>)]\<rparr>"
      by (simp_all add: run_test_case_def Let_def)
    have "extends st1 (st1\<lparr>skipped := Some True\<rparr>)" by (simp add: extends_def)
    moreover have "same_books rn1 rn1" by (simp add: same_books_def)
    ultimately show ?thesis
      using r tally_books[where st = "st1\<lparr>skipped := Some True\<rparr>" and rn = rn1] by (intro exI conjI) auto
  next
    case False
    obtain y st2 rn2 where ra:
      "run_attempts cfg libs test (to_seq top_level ss test) env st1 rn1 = (y, st2, rn2)"
      by (cases "run_attempts cfg libs test (to_seq top_level ss test) env st1 rn1")
    note k = run_attempts_extends[OF ra]
    from assms(1) tc cn False ra
    have r: "x = y"
      "rn' = (if y = None then tally st2 rn2 else rn2)\<lparr>finished := finished rn2 @ [(ss, test, st2)]\<rparr>"
      by (auto simp: run_test_case_def Let_def split: option.splits)
    show ?thesis
      using k r tally_books[where st = st2 and rn = rn2] by (intro exI[of _ st2] exI[of _ rn2] conjI) auto
  qed
  then obtain st2 rn2 where e: "extends st1 st2" and b: "same_books rn1 rn2"
    and f: "finished rn' = finished rn2 @ [(ss, test, st2)]"
    and n: "baseline_names rn' = baseline_names rn2"
    and t: "x = None \<longrightarrow> (failure st2 = Some True \<longrightarrow> failures rn' \<noteq> 0)
                          \<and> (failures rn2 \<noteq> 0 \<longrightarrow> failures rn' \<noteq> 0)"
    by blast
  from b c have names: "baseline_names rn2 = baseline_names rn1" and fin: "finished rn2 = finished rn"
    and fl: "failures rn2 = failures rn"
    by (simp_all add: same_books_def)
  show "books_ok rn'"
  proof (rule books_ok_append[OF assms(2)])
    show "set (baseline_names rn) \<subseteq> set (baseline_names rn')"
      using c(1) names n by simp
    show "name_of (ss, test, st2) \<in> set (baseline_names rn')"
      using c(2) names n by (simp add: name_of_def)
    show "name_of (ss, test, st2) \<in> set (baseline_names rn) \<longrightarrow> flagged (status_of (ss, test, st2))"
      using c(3) extends_flagged[OF e] by (simp add: name_of_def status_of_def)
    show "finished rn' = finished rn @ [(ss, test, st2)]"
      using f fin by simp
  qed
  show "tallied rn'" if "x = None" "tallied rn"
    using that t f fin fl by (auto simp: tallied_def status_of_def)
qed

lemma run_loop_books:
  assumes "run_loop cfg libs top_level env k ts rn = (x, rn')" and "books_ok rn"
  shows "books_ok rn' \<and> (x = None \<longrightarrow> tallied rn \<longrightarrow> tallied rn')"
  using assms
proof (induction ts arbitrary: k rn)
  case Nil
  then show ?case by simp
next
  case (Cons t ts)
  show ?case
  proof (cases t)
    case None
    with Cons.prems show ?thesis by simp
  next
    case (Some tc)
    obtain y rn1 where r: "run_test_case cfg libs top_level (env k) tc rn = (y, rn1)"
      by (cases "run_test_case cfg libs top_level (env k) tc rn")
    note b = run_test_case_books[OF r Cons.prems(2)]
    show ?thesis
    proof (cases y)
      case None
      with Cons.prems(1) Some r
      have "run_loop cfg libs top_level env (Suc k) ts rn1 = (x, rn')" by simp
      from Cons.IH[OF this b(1)] b(2) None show ?thesis by blast
    next
      case (Some e)
      with Cons.prems(1) \<open>t = Some tc\<close> r have "x = Some e" "rn' = rn1" by simp_all
      with b(1) show ?thesis by simp
    qed
  qed
qed

lemma run_loop_finished:
  assumes "run_loop cfg libs top_level env k ts rn = (None, rn')"
  shows "map (\<lambda>(ss, test, st). Some (ss, test)) (finished rn')
           = map (\<lambda>(ss, test, st). Some (ss, test)) (finished rn)
             @ map (map_option (\<lambda>(ss, test, st). (ss, test))) ts"
  using assms
proof (induction ts arbitrary: k rn)
  case Nil
  then show ?case by simp
next
  case (Cons t ts)
  from Cons.prems obtain tc where t: "t = Some tc"
    by (cases t) simp_all
  obtain ss test status where tc: "tc = (ss, test, status)" by (cases tc)
  obtain y rn1 where r: "run_test_case cfg libs top_level (env k) tc rn = (y, rn1)"
    by (cases "run_test_case cfg libs top_level (env k) tc rn")
  from Cons.prems t r have y: "y = None" and l: "run_loop cfg libs top_level env (Suc k) ts rn1 = (None, rn')"
    by (auto split: option.splits)
  obtain st1 rn0 where cn: "check_name (encode (description ss test ''__'')) status
      (rn\<lparr>entries := [], exceptions := []\<rparr>) = (st1, rn0)"
    by fastforce
  have "\<exists>st2. finished rn1 = finished rn @ [(ss, test, st2)]"
  proof (cases "skip test")
    case True
    with r tc cn check_name_books(4)[OF cn] show ?thesis
      by (auto simp: run_test_case_def Let_def)
  next
    case False
    obtain z st2 rn2 where ra:
      "run_attempts cfg libs test (to_seq top_level ss test) (env k) st1 rn0 = (z, st2, rn2)"
      by (cases "run_attempts cfg libs test (to_seq top_level ss test) (env k) st1 rn0")
    from run_attempts_extends(2)[OF ra] check_name_books(4)[OF cn]
    have "finished rn2 = finished rn" by (simp add: same_books_def)
    with r tc cn False ra show ?thesis
      by (auto simp: run_test_case_def Let_def split: option.splits)
  qed
  then obtain st2 where "finished rn1 = finished rn @ [(ss, test, st2)]" by blast
  with Cons.IH[OF l] t tc show ?case by simp
qed

lemma init_runner_books: "books_ok init_runner" "tallied init_runner"
  "fails_if_failed (x, init_runner)"
  by (simp_all add: books_ok_def tallied_def init_runner_def fails_if_failed_def)

lemma finalize_failures: "failures rn \<noteq> 0 \<Longrightarrow> finalize cfg w rn \<noteq> None"
  by (simp add: finalize_def)

lemma run_suite_books: "fails_if_failed (run_suite cfg libs w top_level)"
proof (cases "apply_filters cfg (test_suite cfg top_level)")
  case (Inl x)
  then show ?thesis by (simp add: run_suite_def init_runner_books)
next
  case (Inr ts)
  show ?thesis
  proof (cases "length ts = 0 \<or> some_not_skipped ts \<noteq> Inr True")
    case True
    with Inr show ?thesis
      by (auto simp: run_suite_def init_runner_books split: sum.splits bool.splits)
  next
    case False
    obtain x rn where l: "run_loop cfg libs top_level (attempts w) 0 ts init_runner = (x, rn)"
      by (cases "run_loop cfg libs top_level (attempts w) 0 ts init_runner")
    from run_loop_books[OF l init_runner_books(1)] init_runner_books(2)
    have b: "books_ok rn" and t: "x = None \<longrightarrow> tallied rn" by simp_all
    from Inr False l
    have r: "run_suite cfg libs w top_level = (case x of None \<Rightarrow> finalize cfg w rn | Some e \<Rightarrow> Some e, rn)"
      by (auto simp: run_suite_def split: option.splits)
    show ?thesis
      unfolding r using b t finalize_failures[of rn cfg w]
      by (auto simp: fails_if_failed_def tallied_def split: option.splits)
  qed
qed

lemma run_tests_body_books: "fails_if_failed (run_tests_body cfg libs w)"
  by (simp add: run_tests_body_def init_runner_books run_suite_books
      split: option.split Evaluated.split)

text \<open>
  C1, as stated, fails for a suite whose tests are all skipped.  The two tests of
  \<open>skipped_twins\<close> are declared skipped and have the same encoded baseline name
  \<open>a_b\<close>; the run fails with \<open>nothing to test because all tests were skipped\<close>
  before the loop over the tests starts, so the names are never compared: no test
  case is taken, no status is made and none records \<open>duplicated description\<close>.
  The exit code is 1, on account of the skipped tests alone.
\<close>

theorem skipped_duplicate_not_recorded:
  "map name_of (iter skipped_twins []) = [''a_b'', ''a_b'']
   \<and> map is_skipped (iter skipped_twins []) = [True, True]
   \<and> main plain_config example_libs (world_of ''HeadlessChrome/118.0.5993.70'' skipped_twins)
       = (1, Some \<lparr>ok = False,
                   raised = Some (Fail ''nothing to test because all tests were skipped'' 1),
                   runner = \<lparr>entries = [], exceptions = [], baseline_names = [],
                              skipped_total = 0, failures = 0, finished = [], calls = []\<rparr>\<rparr>)"
proof -
  let ?w = "world_of ''HeadlessChrome/118.0.5993.70'' skipped_twins"
  have c: "cfg_randomize plain_config = False" "cfg_k plain_config = None"
    "cfg_grep plain_config = None" "\<not> cfg_info plain_config"
    by (simp_all add: plain_config_def example_config_def)
  have v: "check_version ''HeadlessChrome/118.0.5993.70''"
    by (simp add: check_version_def parseInt_def match_here_def digits_dot_def is_digit_def
        chromium_min_version_def)
  have vw: "version ?w = Some (''HeadlessChrome/118.0.5993.70'', ''1.3'')"
    by (simp add: world_of_def)
  have n: "map name_of (iter skipped_twins []) = [''a_b'', ''a_b'']"
    by (simp add: skipped_twins_def name_of_def encode_def description_def descriptions_def)
  have s: "map is_skipped (iter skipped_twins []) = [True, True]"
    by (simp add: skipped_twins_def is_skipped_def)
  have r: "run_tests plain_config example_libs ?w
             = \<lparr>ok = False,
                raised = Some (Fail ''nothing to test because all tests were skipped'' 1),
                runner = \<lparr>entries = [], exceptions = [], baseline_names = [],
                           skipped_total = 0, failures = 0, finished = [], calls = []\<rparr>\<rparr>"
    by (simp add: run_tests_def run_tests_body_def run_suite_def world_of_def test_suite_def
        apply_filters_def c skipped_twins_def init_runner_def Let_def)
  have "main plain_config example_libs ?w = (1, Some (run_tests plain_config example_libs ?w))"
    by (simp add: main_def run_def v vw c r Let_def)
  with n s r show ?thesis by simp
qed

text \<open>
  C1, amended.  In every run in which \<open>run_tests\<close> is called, for every test case
  the loop over the tests has taken (\<open>finished\<close> lists them in the order of the run,
  skipped ones included, each with its status as the loop left it): when an earlier
  test case has the same encoded baseline name, the status holds the error
  \<open>duplicated description\<close> and is marked failed, the run does not succeed and the
  process exits with code 1, whatever the page answered for the test and whether or
  not it is skipped.  The loop takes every test of the flattened suite when at least
  one of them is left unskipped by the filters and no internal error aborts the run
  (\<open>run_suite_finished\<close>); when all of them are skipped it takes none.
\<close>

theorem duplicated_description_fails:
  assumes "main cfg libs w = (code, Some res)"
    and "j < length (finished (runner res))" and "i < j"
    and "name_of (finished (runner res) ! i) = name_of (finished (runner res) ! j)"
  shows "''duplicated description'' \<in> set (errors (status_of (finished (runner res) ! j)))
       \<and> failure (status_of (finished (runner res) ! j)) = Some True
       \<and> \<not> ok res \<and> code = 1"
proof -
  from assms(1) have res: "res = run_tests cfg libs w"
    and code: "code = (if check_version (fst (the (version w))) \<and> ok res then 0 else 1)"
    by (auto simp: main_def run_def Let_def split: option.splits if_splits)
  obtain x rn where body: "run_tests_body cfg libs w = (x, rn)"
    by (cases "run_tests_body cfg libs w")
  with res have r: "runner res = rn" "ok res = (x = None)"
    by (simp_all add: run_tests_def)
  from run_tests_body_books[of cfg libs w] body
  have b: "books_ok rn"
    and f: "(\<exists>item \<in> set (finished rn). failure (status_of item) = Some True) \<longrightarrow> x \<noteq> None"
    by (simp_all add: fails_if_failed_def)
  from b assms(2-4) have fl: "flagged (status_of (finished rn ! j))"
    unfolding books_ok_def r by blast
  moreover from assms(2) have "finished rn ! j \<in> set (finished rn)"
    by (simp add: r)
  ultimately have "x \<noteq> None" using f by (auto simp: flagged_def)
  with fl code show ?thesis by (simp add: r flagged_def)
qed

lemma passing_run_test:
  "run_test plain_config libs test seq a passing_attempt st
     \<lparr>entries = [], exceptions = [], baseline_names = ns, skipped_total = sk, failures = fl,
      finished = fin, calls = cs\<rparr>
   = (None, False, st,
      \<lparr>entries = [], exceptions = [], baseline_names = ns, skipped_total = sk, failures = fl,
       finished = fin,
       calls = cs @ [\<lparr>inv_seq = seq, inv_attempt = a, inv_may_retry = False, inv_threw = False\<rparr>]\<rparr>)"
  by (simp add: run_test_def check_output_def note_console_def plain_config_def example_config_def
      passing_attempt_def Let_def)

lemma duplicate_suite_run:
  "run_tests plain_config example_libs (world_of browser duplicate_suite)
     = \<lparr>ok = False, raised = Some (Exit 1),
        runner =
          \<lparr>entries = [], exceptions = [], baseline_names = [''a_b''], skipped_total = 1,
           failures = 1,
           finished =
             [([], \<lparr>tid = 1, t_description = ''a b'', skip = False, threshold = None,
                      retries = None\<rparr>,
               new_status\<lparr>baseline_name := Some ''a_b''\<rparr>),
              ([], \<lparr>tid = 2, t_description = ''a_b'', skip = True, threshold = None,
                      retries = None\<rparr>,
               new_status\<lparr>baseline_name := Some ''a_b'', errors := [''duplicated description''],
                          failure := Some True, skipped := Some True\<rparr>)],
           calls = [\<lparr>inv_seq = ([], 0), inv_attempt = None, inv_may_retry = False,
                      inv_threw = False\<rparr>]\<rparr>\<rparr>"
proof -
  have c: "cfg_randomize plain_config = False" "cfg_k plain_config = None"
    "cfg_grep plain_config = None" "cfg_baselines_root plain_config = None"
    "cfg_retry plain_config = False"
    by (simp_all add: plain_config_def example_config_def)
  show ?thesis
    by (simp add: run_tests_def run_tests_body_def run_suite_def world_of_def test_suite_def
        apply_filters_def c duplicate_suite_def run_test_case_def check_name_def
        run_attempts_def passing_run_test to_seq_def tally_def finalize_def init_runner_def
        encode_def description_def descriptions_def push_def new_status_def Let_def)
qed

theorem duplicated_description_fails_witness:
  "main plain_config example_libs (world_of ''HeadlessChrome/118.0.5993.70'' duplicate_suite)
     = (1, Some (run_tests plain_config example_libs
                   (world_of ''HeadlessChrome/118.0.5993.70'' duplicate_suite)))
   \<and> name_of (finished (runner (run_tests plain_config example_libs
         (world_of ''HeadlessChrome/118.0.5993.70'' duplicate_suite))) ! 0) = ''a_b''
   \<and> name_of (finished (runner (run_tests plain_config example_libs
         (world_of ''HeadlessChrome/118.0.5993.70'' duplicate_suite))) ! 1) = ''a_b''
   \<and> ''duplicated description'' \<in> set (errors (status_of (finished (runner (run_tests plain_config
         example_libs (world_of ''HeadlessChrome/118.0.5993.70'' duplicate_suite))) ! 1)))
   \<and> failure (status_of (finished (runner (run_tests plain_config
         example_libs (world_of ''HeadlessChrome/118.0.5993.70'' duplicate_suite))) ! 1)) = Some True
   \<and> skipped (status_of (finished (runner (run_tests plain_config
         example_libs (world_of ''HeadlessChrome/118.0.5993.70'' duplicate_suite))) ! 1)) = Some True
   \<and> \<not> ok (run_tests plain_config example_libs
         (world_of ''HeadlessChrome/118.0.5993.70'' duplicate_suite))"
proof -
  let ?w = "world_of ''HeadlessChrome/118.0.5993.70'' duplicate_suite"
  let ?res = "run_tests plain_config example_libs ?w"
  have v: "check_version ''HeadlessChrome/118.0.5993.70''"
    by (simp add: check_version_def parseInt_def match_here_def digits_dot_def is_digit_def
        chromium_min_version_def)
  have vw: "version ?w = Some (''HeadlessChrome/118.0.5993.70'', ''1.3'')"
    by (simp add: world_of_def)
  have ci: "\<not> cfg_info plain_config"
    by (simp add: plain_config_def example_config_def)
  have h1: "main plain_config example_libs ?w = (1, Some ?res)"
    by (simp add: main_def run_def v vw ci duplicate_suite_run Let_def)
  have h2: "1 < length (finished (runner ?res))"
    by (simp add: duplicate_suite_run)
  have h3: "(0::nat) < 1" by simp
  have n0: "name_of (finished (runner ?res) ! 0) = ''a_b''"
    by (simp add: duplicate_suite_run name_of_def encode_def description_def descriptions_def)
  have n1: "name_of (finished (runner ?res) ! 1) = ''a_b''"
    by (simp add: duplicate_suite_run name_of_def encode_def description_def descriptions_def)
  have h4: "name_of (finished (runner ?res) ! 0) = name_of (finished (runner ?res) ! 1)"
    by (simp only: n0 n1)
  have s: "skipped (status_of (finished (runner ?res) ! 1)) = Some True"
    by (simp add: duplicate_suite_run status_of_def)
  from duplicated_description_fails[OF h1 h2 h3 h4] h1 n0 n1 s
  show ?thesis by blast
qed

section \<open>Properties of the filters and the version check\<close>

lemma mark_skipped_defined:
  "mark_skipped keep (map Some ts) = Inr (map Some (map (marked keep) ts))"
proof (induction ts)
  case Nil
  show ?case by simp
next
  case (Cons item ts)
  obtain ss test st where item: "item = (ss, test, st)" by (cases item)
  have "(if \<not> keep (description ss test '' '') then test\<lparr>skip := True\<rparr> else test)
          = test\<lparr>skip := skip test \<or> \<not> keep (description ss test '' '')\<rparr>"
    by simp
  with Cons.IH show ?case
    by (simp add: item marked_def del: split_paired_All)
qed



lemma apply_filters_defined:
  "apply_filters cfg (map Some ts) = Inr (map Some (map (filtered cfg) ts))"
proof -
  let ?ts1 = "map (case cfg_k cfg of None \<Rightarrow> id | Some keywords \<Rightarrow> marked (by_keywords keywords)) ts"
  let ?ts2 = "map (case cfg_grep cfg of None \<Rightarrow> id | Some regexes \<Rightarrow> marked (by_regexes regexes)) ?ts1"
  have k: "(case cfg_k cfg of None \<Rightarrow> Inr (map Some ts)
            | Some keywords \<Rightarrow> mark_skipped (by_keywords keywords) (map Some ts))
           = Inr (map Some ?ts1)"
    by (cases "cfg_k cfg") (simp_all only: option.case mark_skipped_defined list.map_id0 id_apply)
  have g: "(case cfg_grep cfg of None \<Rightarrow> Inr (map Some ?ts1)
            | Some regexes \<Rightarrow> mark_skipped (by_regexes regexes) (map Some ?ts1))
           = Inr (map Some ?ts2)"
    by (cases "cfg_grep cfg") (simp_all only: option.case mark_skipped_defined list.map_id0 id_apply)
  have "apply_filters cfg (map Some ts) = Inr (map Some ?ts2)"
  proof (cases "cfg_k cfg \<noteq> None \<or> cfg_grep cfg \<noteq> None")
    case True
    show ?thesis
      unfolding apply_filters_def k by (simp only: True if_True sum.case g)
  next
    case False
    then show ?thesis
      by (simp add: apply_filters_def)
  qed
  moreover have "?ts2 = map (filtered cfg) ts"
    by (simp add: filtered_def comp_def)
  ultimately show ?thesis by simp
qed


lemma some_not_skipped_defined:
  "some_not_skipped (map Some ts) = Inr (\<exists>item \<in> set ts. \<not> is_skipped item)"
  by (induction ts) (auto simp: is_skipped_def)

lemma test_suite_plain:
  "\<not> cfg_randomize cfg \<Longrightarrow> test_suite cfg top_level = map Some (iter top_level [])"
  by (simp add: test_suite_def)

text \<open>With an integer seed other than those of remainder \<open>-(2^31 - 2)\<close> the array
  holds the flattened suite in some order (an array has fewer than \<open>2^32\<close>
  elements).\<close>

lemma test_suite_shuffled:
  assumes "cfg_seed cfg = Finite (of_int s)"
    and "num_rem (Finite (of_int s)) MAX_INT32 \<noteq> Finite (1 - MAX_INT32)"
    and "length (iter top_level []) < 2 ^ 32"
  shows "\<exists>ts. test_suite cfg top_level = map Some ts \<and> mset ts = mset (iter top_level [])"
proof (cases "cfg_randomize cfg")
  case False
  then show ?thesis by (auto simp: test_suite_def)
next
  case True
  let ?a = "fst (shuffle (of_list (iter top_level [])) (Random_constructor (cfg_seed cfg)))"
  have r: "in_range (Random_constructor (cfg_seed cfg))"
    unfolding assms(1) by (rule Random_constructor_in_range[OF assms(2)])
  have l: "length (items (of_list (iter top_level []))) < 2 ^ 32"
    using assms(3) by (simp add: of_list_def)
  from shuffle_permutes(1)[OF r l]
  have m: "mset (items ?a) = mset (map Some (iter top_level []))"
    by (simp add: of_list_def)
  then have "set (items ?a) = set (map Some (iter top_level []))"
    by (metis set_mset_mset)
  then have "\<forall>x \<in> set (items ?a). x \<noteq> None" by auto
  then have e: "items ?a = map Some (map the (items ?a))"
    by (simp add: map_idI)
  have "image_mset Some (mset (map the (items ?a))) = image_mset Some (mset (iter top_level []))"
    using m e by (metis mset_map)
  then have "mset (map the (items ?a)) = mset (iter top_level [])"
    using multiset.inj_map[OF inj_Some] by (blast dest: injD)
  moreover have "test_suite cfg top_level = map Some (map the (items ?a))"
    using True e by (simp only: test_suite_def if_True)
  ultimately show ?thesis by blast
qed



lemma check_screenshot_throws:
  "check_screenshot cfg libs test attempt bbox e ms = (Some x, m, st) \<Longrightarrow> \<exists>msg. x = InternalError msg"
  by (auto simp: check_screenshot_def Let_def split: option.splits prod.splits if_splits)

lemma check_output_throws:
  "check_output cfg libs test attempt e ms = (Some x, m, st) \<Longrightarrow> \<exists>msg. x = InternalError msg"
  by (auto simp: check_output_def Let_def split: prod.splits Evaluated.splits option.splits
      dest: check_screenshot_throws)

lemma run_test_throws:
  "run_test cfg libs test seq attempt e st rn = (Some x, m, st', rn') \<Longrightarrow> \<exists>msg. x = InternalError msg"
  by (auto simp: run_test_def Let_def split: prod.splits dest: check_output_throws)

lemma retry_loop_throws:
  "retry_loop cfg libs test seq env n i st rn = (Some x, st', rn') \<Longrightarrow> \<exists>msg. x = InternalError msg"
proof (induction n arbitrary: i st rn)
  case 0
  then show ?case by simp
next
  case (Suc n)
  obtain y m st1 rn1 where rt:
    "run_test cfg libs test seq (Some i) (env (Some i)) st rn = (y, m, st1, rn1)"
    by (cases "run_test cfg libs test seq (Some i) (env (Some i)) st rn")
  show ?case
  proof (cases y)
    case None
    with Suc.prems rt have "retry_loop cfg libs test seq env n (Suc i) st1 rn1 = (Some x, st', rn')"
      by (auto split: if_splits)
    then show ?thesis by (rule Suc.IH)
  next
    case (Some z)
    with Suc.prems rt have "z = x" by simp
    with rt Some show ?thesis by (auto dest: run_test_throws)
  qed
qed

lemma run_attempts_throws:
  assumes "run_attempts cfg libs test seq env st rn = (Some x, st', rn')"
  shows "\<exists>msg. x = InternalError msg"
proof -
  obtain y m st1 rn1 where rt:
    "run_test cfg libs test seq None (env None) st rn = (y, m, st1, rn1)"
    by (cases "run_test cfg libs test seq None (env None) st rn")
  show ?thesis
  proof (cases y)
    case None
    with assms rt have "retry_loop cfg libs test seq env
        (case retries test of None \<Rightarrow> 10 | Some n \<Rightarrow> n) 0 st1 rn1 = (Some x, st', rn')"
      by (auto simp: run_attempts_def split: if_splits)
    then show ?thesis by (rule retry_loop_throws)
  next
    case (Some z)
    with assms rt have "z = x" by (simp add: run_attempts_def)
    with rt Some show ?thesis by (auto dest: run_test_throws)
  qed
qed

lemma run_test_case_throws:
  "run_test_case cfg libs top_level env tc rn = (Some x, rn') \<Longrightarrow> \<exists>msg. x = InternalError msg"
  by (auto simp: run_test_case_def Let_def split: prod.splits if_splits option.splits
      dest: run_attempts_throws)

lemma run_loop_throws:
  "run_loop cfg libs top_level env k ts rn = (Some x, rn') \<Longrightarrow> \<exists>msg. x = InternalError msg"
proof (induction ts arbitrary: k rn)
  case Nil
  then show ?case by simp
next
  case (Cons t ts)
  show ?case
  proof (cases t)
    case None
    with Cons.prems show ?thesis by (auto simp: type_error_def)
  next
    case (Some tc)
    obtain y rn1 where r: "run_test_case cfg libs top_level (env k) tc rn = (y, rn1)"
      by (cases "run_test_case cfg libs top_level (env k) tc rn")
    show ?thesis
    proof (cases y)
      case None
      with Cons.prems Some r have "run_loop cfg libs top_level env (Suc k) ts rn1 = (Some x, rn')"
        by simp
      then show ?thesis by (rule Cons.IH)
    next
      case (Some z)
      with Cons.prems \<open>t = Some tc\<close> r have "z = x" by simp
      with r Some show ?thesis by (auto dest: run_test_case_throws)
    qed
  qed
qed

text \<open>
  Unless an internal error aborts it or there is nothing to test, the run takes
  every test case of \<open>test_suite\<close>, in order: when \<open>run_tests\<close> ends without
  exception, with \<open>Exit(1)\<close> or with the report of outdated baselines, \<open>finished\<close>
  lists the test cases that \<open>test_suite\<close> holds, as the filters left them.
\<close>

lemma run_suite_finished:
  assumes "test_suite cfg top_level = map Some ts"
    and "run_suite cfg libs w top_level = (x, rn)"
    and "x = None \<or> x = Some (Exit 1) \<or> finished rn \<noteq> []"
    and "\<forall>msg. x \<noteq> Some (InternalError msg)"
  shows "map (\<lambda>(ss, test, st). Some (ss, test)) (finished rn)
           = map (\<lambda>(ss, test, st). Some (ss, test)) (map (filtered cfg) ts)"
proof -
  let ?ts = "map Some (map (filtered cfg) ts)"
  have f: "apply_filters cfg (test_suite cfg top_level) = Inr ?ts"
    by (simp only: assms(1) apply_filters_defined)
  obtain y rn1 where l: "run_loop cfg libs top_level (attempts w) 0 ?ts init_runner = (y, rn1)"
    by (cases "run_loop cfg libs top_level (attempts w) 0 ?ts init_runner")
  have pre: "length ?ts \<noteq> 0 \<and> some_not_skipped ?ts = Inr True"
  proof (rule ccontr)
    assume "\<not> (length ?ts \<noteq> 0 \<and> some_not_skipped ?ts = Inr True)"
    then have "\<exists>msg. run_suite cfg libs w top_level = (Some (Fail msg 1), init_runner)
               \<or> run_suite cfg libs w top_level = (Some (InternalError msg), init_runner)"
      unfolding run_suite_def f
      by (auto simp: some_not_skipped_defined simp del: map_map split: sum.splits bool.splits)
    with assms(2,3,4) show False
      by (auto simp: init_runner_def)
  qed
  then have r: "run_suite cfg libs w top_level
                  = (case y of None \<Rightarrow> (finalize cfg w rn1, rn1) | Some e \<Rightarrow> (Some e, rn1))"
    unfolding run_suite_def f using l
    by (auto simp del: map_map split: option.splits)
  have "y = None"
  proof (cases y)
    case None
    then show ?thesis .
  next
    case (Some e)
    with l run_loop_throws[of cfg libs top_level "attempts w" 0 ?ts init_runner e rn1]
    obtain msg where "e = InternalError msg" by auto
    with r Some assms(2,4) show ?thesis by auto
  qed
  with r assms(2) have rn: "rn = rn1" by simp
  from l \<open>y = None\<close> run_loop_finished[of cfg libs top_level "attempts w" 0 ?ts init_runner rn1]
  have "map (\<lambda>(ss, test, st). Some (ss, test)) (finished rn1)
          = map (map_option (\<lambda>(ss, test, st). (ss, test))) ?ts"
    by (simp add: init_runner_def del: map_map)
  then show ?thesis
    by (simp add: rn comp_def case_prod_unfold)
qed

lemma passing_suite_run:
  "run_tests plain_config example_libs (world_of browser passing_suite)
     = \<lparr>ok = True, raised = None,
        runner =
          \<lparr>entries = [], exceptions = [], baseline_names = [''a_b''], skipped_total = 0,
           failures = 0,
           finished =
             [([], \<lparr>tid = 1, t_description = ''a b'', skip = False, threshold = None,
                      retries = None\<rparr>,
               new_status\<lparr>baseline_name := Some ''a_b''\<rparr>)],
           calls = [\<lparr>inv_seq = ([], 0), inv_attempt = None, inv_may_retry = False,
                      inv_threw = False\<rparr>]\<rparr>\<rparr>"
proof -
  have c: "cfg_randomize plain_config = False" "cfg_k plain_config = None"
    "cfg_grep plain_config = None" "cfg_baselines_root plain_config = None"
    "cfg_retry plain_config = False"
    by (simp_all add: plain_config_def example_config_def)
  show ?thesis
    by (simp add: run_tests_def run_tests_body_def run_suite_def world_of_def test_suite_def
        apply_filters_def c passing_suite_def run_test_case_def check_name_def
        run_attempts_def passing_run_test to_seq_def tally_def finalize_def init_runner_def
        encode_def description_def descriptions_def push_def new_status_def Let_def)
qed

lemma old_browser_major:
  "match_major ''HeadlessChrome/106.0.5249.119'' = Some ''106''"
  by (simp add: match_here_def digits_dot_def is_digit_def)

text \<open>
  C4, as stated, fails: with a browser of major version 106 the check reports the
  version as unsupported, and then \<open>run_tests\<close> is called all the same.  Here the
  one test of the suite is run and passes, \<open>run_tests\<close> succeeds, and the exit code
  is 1 on account of the version alone.
\<close>

theorem old_browser_runs_tests:
  "parseInt (case match_major ''HeadlessChrome/106.0.5249.119'' of None \<Rightarrow> ''0'' | Some m \<Rightarrow> m)
     = 106
   \<and> \<not> check_version ''HeadlessChrome/106.0.5249.119''
   \<and> main plain_config example_libs (world_of ''HeadlessChrome/106.0.5249.119'' passing_suite)
     = (1, Some \<lparr>ok = True, raised = None,
                runner =
                  \<lparr>entries = [], exceptions = [], baseline_names = [''a_b''],
                   skipped_total = 0, failures = 0,
                   finished =
                     [([], \<lparr>tid = 1, t_description = ''a b'', skip = False, threshold = None,
                              retries = None\<rparr>,
                       new_status\<lparr>baseline_name := Some ''a_b''\<rparr>)],
                   calls = [\<lparr>inv_seq = ([], 0), inv_attempt = None, inv_may_retry = False,
                              inv_threw = False\<rparr>]\<rparr>\<rparr>)"
proof -
  have p: "parseInt ''106'' = 106"
    by (simp add: parseInt_def)
  have v: "\<not> check_version ''HeadlessChrome/106.0.5249.119''"
    by (simp add: check_version_def old_browser_major p chromium_min_version_def
        del: match_major.simps)
  have vw: "version (world_of ''HeadlessChrome/106.0.5249.119'' passing_suite)
              = Some (''HeadlessChrome/106.0.5249.119'', ''1.3'')"
    by (simp add: world_of_def)
  have ci: "\<not> cfg_info plain_config"
    by (simp add: plain_config_def example_config_def)
  show ?thesis
    by (simp add: old_browser_major p v main_def run_def vw ci passing_suite_run Let_def
        del: match_major.simps)
qed

text \<open>
  C4, amended.  When the version the browser reports has a major number below 107
  (or no number that \<open>check_version\<close> can find, which counts as 0), the check fails
  and the process exits with code 1 whatever the tests do.  The check is made before
  \<open>run_tests\<close> but does not replace it: \<open>run_tests\<close> is still called unless
  \<open>--info\<close> is given.
\<close>

theorem unsupported_version_exit:
  assumes "version w = Some (browser, protocol)"
    and "parseInt (case match_major browser of None \<Rightarrow> ''0'' | Some m \<Rightarrow> m) < chromium_min_version"
  shows "\<not> check_version browser
       \<and> fst (main cfg libs w) = 1
       \<and> snd (main cfg libs w) = (if cfg_info cfg then None else Some (run_tests cfg libs w))"
proof -
  from assms(2) have v: "\<not> check_version browser"
    by (simp add: check_version_def Let_def)
  with assms(1) show ?thesis
    by (simp add: main_def run_def Let_def)
qed

theorem unsupported_version_exit_witness:
  "version (world_of ''HeadlessChrome/106.0.5249.119'' passing_suite)
     = Some (''HeadlessChrome/106.0.5249.119'', ''1.3'')
   \<and> parseInt (case match_major ''HeadlessChrome/106.0.5249.119'' of None \<Rightarrow> ''0'' | Some m \<Rightarrow> m)
       < chromium_min_version
   \<and> \<not> check_version ''HeadlessChrome/106.0.5249.119''
   \<and> fst (main plain_config example_libs (world_of ''HeadlessChrome/106.0.5249.119'' passing_suite))
       = 1
   \<and> snd (main plain_config example_libs (world_of ''HeadlessChrome/106.0.5249.119'' passing_suite))
       = Some (run_tests plain_config example_libs
                 (world_of ''HeadlessChrome/106.0.5249.119'' passing_suite))"
proof -
  have h1: "version (world_of ''HeadlessChrome/106.0.5249.119'' passing_suite)
     = Some (''HeadlessChrome/106.0.5249.119'', ''1.3'')"
    by (simp add: world_of_def)
  have h2: "parseInt (case match_major ''HeadlessChrome/106.0.5249.119'' of
                        None \<Rightarrow> ''0'' | Some m \<Rightarrow> m) < chromium_min_version"
    by (simp add: old_browser_major parseInt_def chromium_min_version_def
        del: match_major.simps)
  have ci: "\<not> cfg_info plain_config"
    by (simp add: plain_config_def example_config_def)
  from unsupported_version_exit[OF h1 h2, of plain_config example_libs] ci h1 h2
  show ?thesis by (simp del: match_major.simps)
qed

section \<open>Properties of the document\<close>

lemma set_attr_suppressed:
  assumes "suppressed doc"
  shows "event_log (set_attr i a v doc) = event_log doc"
    and "suppressed (set_attr i a v doc)"
    and "ready_sent (set_attr i a v doc) = ready_sent doc"
  using assms by (simp_all add: set_attr_def Let_def)

lemma add_model_suppressed:
  assumes "suppressed doc"
  shows "event_log (add_model m doc) = event_log doc
       \<and> suppressed (add_model m doc)
       \<and> ready_sent (add_model m doc) = ready_sent doc"
proof -
  have "event_log (fold (\<lambda>(a, v). set_attr i a v) avs d) = event_log d
      \<and> suppressed (fold (\<lambda>(a, v). set_attr i a v) avs d)
      \<and> ready_sent (fold (\<lambda>(a, v). set_attr i a v) avs d) = ready_sent d"
    if "suppressed d" for i avs d
    using that
  proof (induction avs arbitrary: d)
    case Nil
    then show ?case by simp
  next
    case (Cons av avs)
    obtain a v where av: "av = (a, v)" by (cases av)
    from Cons.IH[OF set_attr_suppressed(2)[OF Cons.prems, of i a v]]
      set_attr_suppressed[OF Cons.prems, of i a v]
    show ?case by (simp add: av)
  qed
  from this[of "doc\<lparr>models := models doc @ [m\<lparr>m_attributes := []\<rparr>]\<rparr>" "m_id m" "m_attributes m"]
    assms
  show ?thesis by (simp add: add_model_def)
qed

lemma load_suppressed:
  assumes "suppressed doc"
  shows "event_log (fold add_model json doc) = event_log doc
       \<and> suppressed (fold add_model json doc)
       \<and> ready_sent (fold add_model json doc) = ready_sent doc"
  using assms
proof (induction json arbitrary: doc)
  case Nil
  then show ?case by simp
next
  case (Cons m json)
  from add_model_suppressed[OF Cons.prems, of m] Cons.IH[of "add_model m doc"]
  show ?case by simp
qed

lemma set_attr_ready:
  "count_list (event_log (set_attr i a v doc)) document_ready
     = count_list (event_log doc) document_ready"
  "ready_sent (set_attr i a v doc) = ready_sent doc"
  by (simp_all add: set_attr_def Let_def document_ready_def)

lemma derived_ready:
  "count_list (event_log (fold (\<lambda>(i, a, v). set_attr i a v) derived doc)) document_ready
     = count_list (event_log doc) document_ready
   \<and> ready_sent (fold (\<lambda>(i, a, v). set_attr i a v) derived doc) = ready_sent doc"
proof (induction derived arbitrary: doc)
  case Nil
  show ?case by simp
next
  case (Cons c derived)
  obtain i a v where c: "c = (i, a, v)" by (cases c)
  from Cons.IH[of "set_attr i a v doc"] set_attr_ready[of i a v doc]
  show ?case by (simp add: c)
qed

lemma render_pass_ready:
  "ready_sent (render_pass derived doc)"
  "count_list (event_log (render_pass derived doc)) document_ready
     = (if ready_sent doc then count_list (event_log doc) document_ready
        else Suc (count_list (event_log doc) document_ready))"
  "\<not> ready_sent doc \<Longrightarrow> last (event_log (render_pass derived doc)) = document_ready"
  using derived_ready[of derived doc]
  by (simp_all add: render_pass_def Let_def)

text \<open>
  C9. On the document as the specification describes it: loading a snapshot leaves
  the event log empty; the first full render pass, with its derived changes, sends
  the document-ready signal exactly once, after those changes; a further render
  pass does not send it again.
\<close>

theorem from_snapshot_silent_then_ready:
  "event_log (from_snapshot json) = []
   \<and> count_list (event_log (render_pass derived (from_snapshot json))) document_ready = 1
   \<and> last (event_log (render_pass derived (from_snapshot json))) = document_ready
   \<and> count_list (event_log (render_pass derived' (render_pass derived (from_snapshot json))))
        document_ready = 1"
proof -
  have s: "suppressed (empty_document\<lparr>suppressed := True\<rparr>)" by simp
  from load_suppressed[OF s, of json]
  have l: "event_log (from_snapshot json) = []" and r: "\<not> ready_sent (from_snapshot json)"
    by (simp_all add: from_snapshot_def empty_document_def)
  from render_pass_ready[where derived = derived and doc = "from_snapshot json"] l r
  have a: "ready_sent (render_pass derived (from_snapshot json))"
    and b: "count_list (event_log (render_pass derived (from_snapshot json))) document_ready = 1"
    and c: "last (event_log (render_pass derived (from_snapshot json))) = document_ready"
    by simp_all
  from render_pass_ready(2)[where derived = derived'
      and doc = "render_pass derived (from_snapshot json)"] a b
  have d: "count_list (event_log (render_pass derived' (render_pass derived (from_snapshot json))))
        document_ready = 1"
    by simp
  from l b c d show ?thesis by simp
qed

end
